theory Spec2Isabelle
  imports
    Complex_Main
    "HOL-Library.Char_ord"
    "HOL-Library.List_Lexorder"
    "HOL-Library.Multiset"
    "HOL-Library.Sublist"
begin

section \<open>Subscription manager: renewal dates and the subscription store\<close>

text \<open>
  A shallow embedding of \<^verbatim>\<open>src/utils.py\<close> (date validation, days until renewal) and
  \<^verbatim>\<open>src/subscription.py\<close> (the \<^verbatim>\<open>Subscription\<close> dataclass and the
  \<^verbatim>\<open>SubscriptionManager\<close> over its SQLite table).

  Conventions of the model:
  \<^item> a Python \<^verbatim>\<open>str\<close> that the code parses as a date is a list of Unicode code
    points (\<open>unicode\<close>; a code point is the integer that \<^verbatim>\<open>ord\<close> gives), because the
    regular expression class \<^verbatim>\<open>\d\<close> of Python matches the decimal digits of every
    script; a name, a category, a payment method and a search query are text of code
    points below 256 (\<open>string\<close>), on which \<^verbatim>\<open>str.lower\<close> is given by a short table;
    \<open>ustr\<close> reads such a text as code points;
  \<^item> text holds no NUL character and stays below the size SQLite accepts for a string
    and for a row (\<open>10^9\<close> bytes);
  \<^item> Python's unbounded \<^verbatim>\<open>int\<close> is \<open>int\<close>; an id that SQLite cannot hold is an error
    of the statement that binds it;
  \<^item> a \<^verbatim>\<open>float\<close> is a real number or NaN (\<open>pyfloat\<close>); rounding and the infinities are
    left out; a cost stored in the table is a real number, because a NaN is bound
    as NULL, which the \<^verbatim>\<open>NOT NULL\<close> column refuses;
  \<^item> every \<^verbatim>\<open>raise\<close> is a value \<open>Inl e\<close> of a sum type; what a method prints is not
    modelled;
  \<^item> \<^verbatim>\<open>date.today()\<close> is the explicit parameter \<open>today\<close>;
  \<^item> the library calls the source makes (\<^verbatim>\<open>re.match\<close>, \<^verbatim>\<open>datetime.strptime\<close>,
    \<^verbatim>\<open>date.replace\<close>, date comparison and subtraction, the SQL statements and the
    binding of their parameters) are modelled after CPython 3.11 (\<^verbatim>\<open>_pydatetime\<close>,
    \<^verbatim>\<open>_strptime\<close>, \<^verbatim>\<open>re\<close>, \<^verbatim>\<open>sqlite3\<close>, Unicode 14) and SQLite's documented behaviour.
\<close>

subsection \<open>Errors\<close>

datatype message =
    Library_date_error
  | Invalid_renewal_date_format
  | Error_calculating_days_until_renewal
  | Cost_cannot_be_negative
  | Subscription_ID_is_required_for_update
  | Database_error

text \<open>
  \<open>Sqlite3_Error\<close> stands for \<^verbatim>\<open>sqlite3.Error\<close> and its subclasses; every method of the
  store catches it, so no method returns it.
\<close>

datatype error = ValueError message | OverflowError | UnicodeEncodeError | Sqlite3_Error

subsection \<open>The \<^verbatim>\<open>datetime.date\<close> operations the source uses\<close>

record date =
  year :: int
  month :: int
  day :: int

definition MINYEAR :: int where
  "MINYEAR = 1"

definition MAXYEAR :: int where
  "MAXYEAR = 9999"

definition is_leap :: "int \<Rightarrow> bool" where
  "is_leap y = (y mod 4 = 0 \<and> (y mod 100 \<noteq> 0 \<or> y mod 400 = 0))"

definition DAYS_IN_MONTH :: "int list" where
  "DAYS_IN_MONTH = [-1, 31, 28, 31, 30, 31, 30, 31, 31, 30, 31, 30, 31]"

definition DAYS_BEFORE_MONTH :: "int list" where
  "DAYS_BEFORE_MONTH = [-1, 0, 31, 59, 90, 120, 151, 181, 212, 243, 273, 304, 334]"

definition days_in_month :: "int \<Rightarrow> int \<Rightarrow> int" where
  "days_in_month y m = (if m = 2 \<and> is_leap y then 29 else DAYS_IN_MONTH ! nat m)"

definition days_before_year :: "int \<Rightarrow> int" where
  "days_before_year yr =
     (let y = yr - 1 in y * 365 + y div 4 - y div 100 + y div 400)"

definition days_before_month :: "int \<Rightarrow> int \<Rightarrow> int" where
  "days_before_month y m =
     DAYS_BEFORE_MONTH ! nat m + (if m > 2 \<and> is_leap y then 1 else 0)"

definition ymd2ord :: "int \<Rightarrow> int \<Rightarrow> int \<Rightarrow> int" where
  "ymd2ord y m d = days_before_year y + days_before_month y m + d"

text \<open>\<^verbatim>\<open>_check_date_fields\<close>: the year, then the month, then the day within the month.\<close>

definition check_date_fields :: "int \<Rightarrow> int \<Rightarrow> int \<Rightarrow> bool" where
  "check_date_fields y m d =
     (MINYEAR \<le> y \<and> y \<le> MAXYEAR \<and> 1 \<le> m \<and> m \<le> 12 \<and> 1 \<le> d \<and> d \<le> days_in_month y m)"

text \<open>The constructor \<^verbatim>\<open>date(year, month, day)\<close>, which raises on fields out of range.\<close>

definition date_new :: "int \<Rightarrow> int \<Rightarrow> int \<Rightarrow> error + date" where
  "date_new y m d =
     (if check_date_fields y m d then Inr \<lparr>year = y, month = m, day = d\<rparr>
      else Inl (ValueError Library_date_error))"

text \<open>Every \<^verbatim>\<open>date\<close> object went through the constructor, so it satisfies this.\<close>

definition valid_date :: "date \<Rightarrow> bool" where
  "valid_date dt = check_date_fields (year dt) (month dt) (day dt)"

definition replace_year :: "date \<Rightarrow> int \<Rightarrow> error + date" where
  "replace_year dt y = date_new y (month dt) (day dt)"

definition toordinal :: "date \<Rightarrow> int" where
  "toordinal dt = ymd2ord (year dt) (month dt) (day dt)"

text \<open>\<^verbatim>\<open>a < b\<close> on dates compares the triples (year, month, day).\<close>

definition date_lt :: "date \<Rightarrow> date \<Rightarrow> bool" where
  "date_lt a b =
     (year a < year b \<or> (year a = year b \<and>
        (month a < month b \<or> (month a = month b \<and> day a < day b))))"

text \<open>\<^verbatim>\<open>(a - b).days\<close>.\<close>

definition date_sub_days :: "date \<Rightarrow> date \<Rightarrow> int" where
  "date_sub_days a b = toordinal a - toordinal b"

subsection \<open>Text and decimal digits\<close>

type_synonym codepoint = int

type_synonym unicode = "codepoint list"

definition ord :: "char \<Rightarrow> codepoint" where
  "ord c = of_char c"

definition ustr :: "string \<Rightarrow> unicode" where
  "ustr s = map ord s"

text \<open>
  The characters of category \<^verbatim>\<open>Nd\<close> come in runs of ten, \<^verbatim>\<open>0\<close> to \<^verbatim>\<open>9\<close> of one script;
  the table lists the code point of each zero (Unicode 14). \<^verbatim>\<open>\d\<close> in a \<^verbatim>\<open>str\<close> pattern
  without \<^verbatim>\<open>re.ASCII\<close> matches exactly these characters, and \<^verbatim>\<open>int\<close> reads each of
  them as its decimal value.
\<close>

definition DECIMAL_ZEROS :: "codepoint list" where
  "DECIMAL_ZEROS =
     [48, 1632, 1776, 1984, 2406, 2534, 2662, 2790, 2918, 3046, 3174, 3302, 3430, 3558,
      3664, 3792, 3872, 4160, 4240, 6112, 6160, 6470, 6608, 6784, 6800, 6992, 7088, 7232,
      7248, 42528, 43216, 43264, 43472, 43504, 43600, 44016, 65296, 66720, 68912, 69734,
      69872, 69942, 70096, 70384, 70736, 70864, 71248, 71360, 71472, 71904, 72016, 72784,
      73040, 73120, 92768, 92864, 93008, 120782, 120792, 120802, 120812, 120822, 123200,
      123632, 125264, 130032]"

definition decimal :: "codepoint \<Rightarrow> int option" where
  "decimal c = map_option (\<lambda>z. c - z) (find (\<lambda>z. z \<le> c \<and> c \<le> z + 9) DECIMAL_ZEROS)"

definition is_digit :: "codepoint \<Rightarrow> bool" where
  "is_digit c = (decimal c \<noteq> None)"

definition digit_val :: "codepoint \<Rightarrow> int" where
  "digit_val c = (case decimal c of Some v \<Rightarrow> v | None \<Rightarrow> 0)"

subsection \<open>\<^verbatim>\<open>re.match(r'^\d{4}-\d{2}-\d{2}$', s)\<close>\<close>

fun date_shape :: "unicode \<Rightarrow> bool" where
  "date_shape [y1, y2, y3, y4, h1, m1, m2, h2, d1, d2] =
     (is_digit y1 \<and> is_digit y2 \<and> is_digit y3 \<and> is_digit y4 \<and> h1 = ord CHR ''-'' \<and>
      is_digit m1 \<and> is_digit m2 \<and> h2 = ord CHR ''-'' \<and> is_digit d1 \<and> is_digit d2)"
| "date_shape _ = False"

text \<open>
  Without \<^verbatim>\<open>re.MULTILINE\<close>, \<^verbatim>\<open>$\<close> matches at the end of the string and also just
  before a newline that ends the string.
\<close>

definition re_match_date_pattern :: "unicode \<Rightarrow> bool" where
  "re_match_date_pattern s =
     (date_shape s \<or> (s \<noteq> [] \<and> last s = ord CHR 0x0A \<and> date_shape (butlast s)))"

subsection \<open>\<^verbatim>\<open>datetime.strptime(s, '%Y-%m-%d')\<close>\<close>

text \<open>
  \<^verbatim>\<open>_strptime\<close> turns the format into the regular expression
  \<^verbatim>\<open>(?P<Y>\d\d\d\d)-(?P<m>1[0-2]|0[1-9]|[1-9])-(?P<d>3[0-1]|[1-2]\d|0[1-9]|[1-9]| [1-9])\<close>,
  matches it at the start of the string, raises when it does not match or when the match
  leaves characters over, and then builds the date, which raises on a day the month
  does not have. Each directive yields its value and the rest of the string; the
  alternatives of a directive are tried in the order written. The character ranges
  are ranges of code points, so they hold the digits \<^verbatim>\<open>0\<close> to \<^verbatim>\<open>9\<close> only; the class
  \<^verbatim>\<open>\d\<close>, in the year and in the second alternative of the day, holds every decimal
  digit.
\<close>

definition in_range :: "char \<Rightarrow> char \<Rightarrow> codepoint \<Rightarrow> bool" where
  "in_range lo hi c = (ord lo \<le> c \<and> c \<le> ord hi)"

fun match_Y :: "unicode \<Rightarrow> (int \<times> unicode) option" where
  "match_Y (a # b # c # d # rest) =
     (if is_digit a \<and> is_digit b \<and> is_digit c \<and> is_digit d
      then Some (1000 * digit_val a + 100 * digit_val b + 10 * digit_val c + digit_val d, rest)
      else None)"
| "match_Y _ = None"

fun match_dash :: "unicode \<Rightarrow> unicode option" where
  "match_dash (c # rest) = (if c = ord CHR ''-'' then Some rest else None)"
| "match_dash [] = None"

fun alts_m :: "unicode \<Rightarrow> (int \<times> unicode) list" where
  "alts_m (a # b # rest) =
     (if a = ord CHR ''1'' \<and> in_range (CHR ''0'') (CHR ''2'') b
      then [(10 + digit_val b, rest)] else []) @
     (if a = ord CHR ''0'' \<and> in_range (CHR ''1'') (CHR ''9'') b
      then [(digit_val b, rest)] else []) @
     (if in_range (CHR ''1'') (CHR ''9'') a then [(digit_val a, b # rest)] else [])"
| "alts_m [a] = (if in_range (CHR ''1'') (CHR ''9'') a then [(digit_val a, [])] else [])"
| "alts_m [] = []"

fun alts_d :: "unicode \<Rightarrow> (int \<times> unicode) list" where
  "alts_d (a # b # rest) =
     (if a = ord CHR ''3'' \<and> in_range (CHR ''0'') (CHR ''1'') b
      then [(30 + digit_val b, rest)] else []) @
     (if in_range (CHR ''1'') (CHR ''2'') a \<and> is_digit b
      then [(10 * digit_val a + digit_val b, rest)] else []) @
     (if a = ord CHR ''0'' \<and> in_range (CHR ''1'') (CHR ''9'') b
      then [(digit_val b, rest)] else []) @
     (if in_range (CHR ''1'') (CHR ''9'') a then [(digit_val a, b # rest)] else []) @
     (if a = ord CHR '' '' \<and> in_range (CHR ''1'') (CHR ''9'') b
      then [(digit_val b, rest)] else [])"
| "alts_d [a] = (if in_range (CHR ''1'') (CHR ''9'') a then [(digit_val a, [])] else [])"
| "alts_d [] = []"

text \<open>The first alternative of a directive with which the rest of the pattern matches.\<close>

fun first_match :: "('a \<Rightarrow> 'b option) \<Rightarrow> 'a list \<Rightarrow> 'b option" where
  "first_match k [] = None"
| "first_match k (x # xs) = (case k x of Some r \<Rightarrow> Some r | None \<Rightarrow> first_match k xs)"

definition strptime_match :: "unicode \<Rightarrow> (int \<times> int \<times> int \<times> unicode) option" where
  "strptime_match s =
     (case match_Y s of
        None \<Rightarrow> None
      | Some (y, r1) \<Rightarrow>
          (case match_dash r1 of
             None \<Rightarrow> None
           | Some r2 \<Rightarrow>
               first_match
                 (\<lambda>(m, r3).
                    case match_dash r3 of
                      None \<Rightarrow> None
                    | Some r4 \<Rightarrow> first_match (\<lambda>(d, r5). Some (y, m, d, r5)) (alts_d r4))
                 (alts_m r2)))"

definition strptime :: "unicode \<Rightarrow> error + date" where
  "strptime s =
     (case strptime_match s of
        None \<Rightarrow> Inl (ValueError Library_date_error)
      | Some (y, m, d, rest) \<Rightarrow>
          if rest \<noteq> [] then Inl (ValueError Library_date_error) else date_new y m d)"

subsection \<open>\<^verbatim>\<open>utils.validate_date\<close> and \<^verbatim>\<open>utils.calculate_days_until_renewal\<close>\<close>

definition validate_date :: "unicode \<Rightarrow> bool" where
  "validate_date date_string =
     (if date_string = [] then False
      else if \<not> re_match_date_pattern date_string then False
      else (case strptime date_string of Inr _ \<Rightarrow> True | Inl _ \<Rightarrow> False))"

text \<open>
  The body of the \<^verbatim>\<open>try\<close>: any \<^verbatim>\<open>ValueError\<close> of the library calls in it is caught and
  raised again as \<^verbatim>\<open>ValueError("Error calculating days until renewal: ...")\<close>.
\<close>

definition days_until_body :: "unicode \<Rightarrow> date \<Rightarrow> error + int" where
  "days_until_body renewal_date today =
     (case strptime renewal_date of
        Inl e \<Rightarrow> Inl e
      | Inr renewal \<Rightarrow>
          (let current_year = year today in
           case replace_year renewal current_year of
             Inl e \<Rightarrow> Inl e
           | Inr renewal_this_year \<Rightarrow>
               if date_lt renewal_this_year today
               then (case replace_year renewal (current_year + 1) of
                       Inl e \<Rightarrow> Inl e
                     | Inr renewal_next_year \<Rightarrow> Inr (date_sub_days renewal_next_year today))
               else Inr (date_sub_days renewal_this_year today)))"

definition calculate_days_until_renewal :: "unicode \<Rightarrow> date \<Rightarrow> error + int" where
  "calculate_days_until_renewal renewal_date today =
     (if \<not> validate_date renewal_date then Inl (ValueError Invalid_renewal_date_format)
      else (case days_until_body renewal_date today of
              Inl e \<Rightarrow> Inl (ValueError Error_calculating_days_until_renewal)
            | Inr n \<Rightarrow> Inr n))"

subsection \<open>Python floats\<close>

text \<open>
  Every comparison with a NaN is false, and arithmetic with a NaN gives a NaN.
\<close>

datatype pyfloat = Num real | NaN

fun float_lt :: "pyfloat \<Rightarrow> pyfloat \<Rightarrow> bool" where
  "float_lt (Num a) (Num b) = (a < b)"
| "float_lt _ _ = False"

fun float_le :: "pyfloat \<Rightarrow> pyfloat \<Rightarrow> bool" where
  "float_le (Num a) (Num b) = (a \<le> b)"
| "float_le _ _ = False"




subsection \<open>The \<^verbatim>\<open>Subscription\<close> dataclass\<close>

text \<open>
  The dataclass is mutable: a value of the record is any assignment of the six fields.
  \<open>Subscription\<close> is the constructor with its \<^verbatim>\<open>__post_init__\<close> check, which raises on
  a negative cost first and on an invalid renewal date second. The test
  \<^verbatim>\<open>self.cost < 0\<close> is false on a NaN.
\<close>

record subscription =
  sub_id :: "int option"
  name :: string
  category :: string
  cost :: pyfloat
  renewal_date :: unicode
  payment_method :: string

definition Subscription ::
  "int option \<Rightarrow> string \<Rightarrow> string \<Rightarrow> pyfloat \<Rightarrow> unicode \<Rightarrow> string \<Rightarrow> error + subscription" where
  "Subscription i n c k r p =
     (if float_lt k (Num 0) then Inl (ValueError Cost_cannot_be_negative)
      else if \<not> validate_date r then Inl (ValueError Invalid_renewal_date_format)
      else Inr \<lparr>sub_id = i, name = n, category = c, cost = k, renewal_date = r,
                payment_method = p\<rparr>)"

subsection \<open>Binding the parameters of a statement\<close>

text \<open>
  \<^verbatim>\<open>sqlite3\<close> encodes a \<^verbatim>\<open>str\<close> parameter as UTF-8, which raises \<^verbatim>\<open>UnicodeEncodeError\<close>
  on a surrogate code point, and raises \<^verbatim>\<open>OverflowError\<close> on an \<^verbatim>\<open>int\<close> outside the
  signed 64-bit range. Neither is a \<^verbatim>\<open>sqlite3.Error\<close>. The parameters are bound in
  the order of the tuple, and the first that fails ends the call. A code point below
  256 is never a surrogate, so only the renewal date and the id can fail.
\<close>

definition is_surrogate :: "codepoint \<Rightarrow> bool" where
  "is_surrogate c = (0xD800 \<le> c \<and> c \<le> 0xDFFF)"

definition encodable :: "unicode \<Rightarrow> bool" where
  "encodable s = (\<not> list_ex is_surrogate s)"

definition bind_text :: "unicode \<Rightarrow> error option" where
  "bind_text s = (if encodable s then None else Some UnicodeEncodeError)"

definition in_int64 :: "int \<Rightarrow> bool" where
  "in_int64 i = (- (2 ^ 63) \<le> i \<and> i < 2 ^ 63)"

definition bind_int :: "int \<Rightarrow> error option" where
  "bind_int i = (if in_int64 i then None else Some OverflowError)"

fun bind_parameters :: "error option list \<Rightarrow> error option" where
  "bind_parameters [] = None"
| "bind_parameters (Some e # ps) = Some e"
| "bind_parameters (None # ps) = bind_parameters ps"

text \<open>The number of bytes of a text in UTF-8.\<close>

definition utf8_size :: "codepoint \<Rightarrow> int" where
  "utf8_size c = (if c < 0x80 then 1 else if c < 0x800 then 2 else if c < 0x10000 then 3 else 4)"

definition utf8_length :: "unicode \<Rightarrow> int" where
  "utf8_length s = sum_list (map utf8_size s)"

subsection \<open>The \<^verbatim>\<open>subscriptions\<close> table\<close>

text \<open>
  A row holds the columns the source reads (\<^verbatim>\<open>created_at\<close> is never read). The table is
  the list of its rows in rowid order together with the largest rowid ever given out,
  which \<^verbatim>\<open>AUTOINCREMENT\<close> keeps in \<^verbatim>\<open>sqlite_sequence\<close>. The columns are \<^verbatim>\<open>NOT NULL\<close>,
  so the fields of a row are never NULL and its cost is a real number.
\<close>

record row =
  row_id :: int
  row_name :: string
  row_category :: string
  row_cost :: real
  row_renewal_date :: unicode
  row_payment_method :: string

record database =
  rows :: "row list"
  seq :: int




text \<open>\<^verbatim>\<open>Subscription(id=row[0], name=row[1], ...)\<close>: every row read back is constructed anew.\<close>

definition load_row :: "row \<Rightarrow> error + subscription" where
  "load_row r =
     Subscription (Some (row_id r)) (row_name r) (row_category r) (Num (row_cost r))
       (row_renewal_date r) (row_payment_method r)"

text \<open>The \<^verbatim>\<open>for row in rows\<close> loop; the first constructor that raises ends the call.\<close>

fun load_rows :: "row list \<Rightarrow> error + subscription list" where
  "load_rows [] = Inr []"
| "load_rows (r # rs) =
     (case load_row r of
        Inl e \<Rightarrow> Inl e
      | Inr s \<Rightarrow> (case load_rows rs of Inl e \<Rightarrow> Inl e | Inr ss \<Rightarrow> Inr (s # ss)))"

text \<open>
  \<^verbatim>\<open>ORDER BY name\<close> under the default \<^verbatim>\<open>BINARY\<close> collation: code point order, a proper
  prefix first; rows of equal name stay in rowid order.
\<close>

definition order_by_name :: "row list \<Rightarrow> row list" where
  "order_by_name rs = sort_key row_name rs"

definition get_all_subscriptions :: "database \<Rightarrow> error + subscription list" where
  "get_all_subscriptions db = load_rows (order_by_name (rows db))"

definition get_subscription_by_id :: "database \<Rightarrow> int \<Rightarrow> error + subscription option" where
  "get_subscription_by_id db subscription_id =
     (case bind_parameters [bind_int subscription_id] of
        Some e \<Rightarrow> Inl e
      | None \<Rightarrow>
          (case find (\<lambda>r. row_id r = subscription_id) (rows db) of
             None \<Rightarrow> Inr None
           | Some r \<Rightarrow> (case load_row r of Inl e \<Rightarrow> Inl e | Inr s \<Rightarrow> Inr (Some s))))"



definition delete_subscription :: "database \<Rightarrow> int \<Rightarrow> error + database \<times> bool" where
  "delete_subscription db subscription_id =
     (case bind_parameters [bind_int subscription_id] of
        Some e \<Rightarrow> Inl e
      | None \<Rightarrow>
          Inr (db\<lparr>rows := filter (\<lambda>r. row_id r \<noteq> subscription_id) (rows db)\<rparr>,
               list_ex (\<lambda>r. row_id r = subscription_id) (rows db)))"

definition get_subscriptions_by_category :: "database \<Rightarrow> string \<Rightarrow> error + subscription list" where
  "get_subscriptions_by_category db c =
     (case bind_parameters [bind_text (ustr c)] of
        Some e \<Rightarrow> Inl e
      | None \<Rightarrow> load_rows (order_by_name (filter (\<lambda>r. row_category r = c) (rows db))))"

text \<open>The loop of \<^verbatim>\<open>get_upcoming_renewals\<close>, then the stable \<^verbatim>\<open>list.sort\<close> on the day count.\<close>

fun upcoming_loop ::
  "subscription list \<Rightarrow> int \<Rightarrow> date \<Rightarrow> error + (subscription \<times> int) list" where
  "upcoming_loop [] days today = Inr []"
| "upcoming_loop (s # ss) days today =
     (case calculate_days_until_renewal (renewal_date s) today of
        Inl e \<Rightarrow> Inl e
      | Inr days_until \<Rightarrow>
          (case upcoming_loop ss days today of
             Inl e \<Rightarrow> Inl e
           | Inr upcoming \<Rightarrow>
               Inr (if 0 \<le> days_until \<and> days_until \<le> days
                    then (s, days_until) # upcoming else upcoming)))"

definition get_upcoming_renewals ::
  "database \<Rightarrow> int \<Rightarrow> date \<Rightarrow> error + (subscription \<times> int) list" where
  "get_upcoming_renewals db days today =
     (case get_all_subscriptions db of
        Inl e \<Rightarrow> Inl e
      | Inr subscriptions \<Rightarrow>
          (case upcoming_loop subscriptions days today of
             Inl e \<Rightarrow> Inl e
           | Inr upcoming \<Rightarrow> Inr (sort_key snd upcoming)))"



subsection \<open>\<^verbatim>\<open>search_subscriptions\<close>\<close>

text \<open>
  \<^verbatim>\<open>str.lower\<close> on code points below 256 maps \<^verbatim>\<open>A\<close>..\<^verbatim>\<open>Z\<close> and the Latin-1 capitals
  (192..214, 216..222) to the code point 32 above. SQLite's \<^verbatim>\<open>LOWER\<close> and the case
  folding of \<^verbatim>\<open>LIKE\<close> touch \<^verbatim>\<open>A\<close>..\<^verbatim>\<open>Z\<close> only.
\<close>

definition py_lower_char :: "char \<Rightarrow> char" where
  "py_lower_char c =
     (let n = (of_char c :: nat) in
      if (65 \<le> n \<and> n \<le> 90) \<or> (192 \<le> n \<and> n \<le> 214) \<or> (216 \<le> n \<and> n \<le> 222)
      then char_of (n + 32) else c)"

definition py_lower :: "string \<Rightarrow> string" where
  "py_lower s = map py_lower_char s"

definition ascii_lower_char :: "char \<Rightarrow> char" where
  "ascii_lower_char c =
     (let n = (of_char c :: nat) in if 65 \<le> n \<and> n \<le> 90 then char_of (n + 32) else c)"

definition sqlite_lower :: "string \<Rightarrow> string" where
  "sqlite_lower s = map ascii_lower_char s"

text \<open>
  \<^verbatim>\<open>text LIKE pattern\<close> with no \<^verbatim>\<open>ESCAPE\<close>: \<^verbatim>\<open>%\<close> matches any run of characters,
  \<^verbatim>\<open>_\<close> any one character, any other character itself up to the case of \<^verbatim>\<open>A\<close>..\<^verbatim>\<open>Z\<close>.
\<close>

fun like :: "string \<Rightarrow> string \<Rightarrow> bool" where
  "like [] s = (s = [])"
| "like (p # ps) [] = (p = CHR ''%'' \<and> like ps [])"
| "like (p # ps) (c # cs) =
     (if p = CHR ''%'' then like ps (c # cs) \<or> like (p # ps) cs
      else (p = CHR ''_'' \<or> ascii_lower_char p = ascii_lower_char c) \<and> like ps cs)"

text \<open>
  SQLite refuses a \<^verbatim>\<open>LIKE\<close> pattern of more than 50000 bytes
  (\<^verbatim>\<open>sqlite3.OperationalError\<close>) as soon as it meets a row; the method catches the
  error, prints it and returns the list of results, which is still empty. On an empty
  table there is no error and no result either.
\<close>

definition SQLITE_MAX_LIKE_PATTERN_LENGTH :: int where
  "SQLITE_MAX_LIKE_PATTERN_LENGTH = 50000"

definition search_subscriptions :: "database \<Rightarrow> string \<Rightarrow> error + subscription list" where
  "search_subscriptions db query =
     (let query_lower = py_lower query;
          pattern = CHR ''%'' # query_lower @ [CHR ''%'']
      in case bind_parameters [bind_text (ustr pattern), bind_text (ustr pattern)] of
           Some e \<Rightarrow> Inl e
         | None \<Rightarrow>
             if SQLITE_MAX_LIKE_PATTERN_LENGTH < utf8_length (ustr pattern) then Inr []
             else load_rows (order_by_name
                    (filter (\<lambda>r. like pattern (sqlite_lower (row_name r)) \<or>
                                 like pattern (sqlite_lower (row_category r)))
                       (rows db))))"

section \<open>Reference definitions, in the words of the specification\<close>

subsection \<open>Date strings and calendar dates\<close>

text \<open>
  Four digits, a dash, two digits, a dash, two digits, with the digits \<^verbatim>\<open>0\<close> to \<^verbatim>\<open>9\<close>;
  and the same shape with the decimal digits of any script.
\<close>

definition is_ascii_digit :: "codepoint \<Rightarrow> bool" where
  "is_ascii_digit c = (ord CHR ''0'' \<le> c \<and> c \<le> ord CHR ''9'')"

definition matches_YYYY_MM_DD :: "unicode \<Rightarrow> bool" where
  "matches_YYYY_MM_DD s =
     (length s = 10 \<and> is_ascii_digit (s ! 0) \<and> is_ascii_digit (s ! 1) \<and>
      is_ascii_digit (s ! 2) \<and> is_ascii_digit (s ! 3) \<and> s ! 4 = ord CHR ''-'' \<and>
      is_ascii_digit (s ! 5) \<and> is_ascii_digit (s ! 6) \<and> s ! 7 = ord CHR ''-'' \<and>
      is_ascii_digit (s ! 8) \<and> is_ascii_digit (s ! 9))"

definition matches_with_any_digits :: "unicode \<Rightarrow> bool" where
  "matches_with_any_digits s =
     (length s = 10 \<and> is_digit (s ! 0) \<and> is_digit (s ! 1) \<and> is_digit (s ! 2) \<and>
      is_digit (s ! 3) \<and> s ! 4 = ord CHR ''-'' \<and> is_digit (s ! 5) \<and> is_digit (s ! 6) \<and>
      s ! 7 = ord CHR ''-'' \<and> is_digit (s ! 8) \<and> is_digit (s ! 9))"

text \<open>
  The digits that must be \<^verbatim>\<open>0\<close> to \<^verbatim>\<open>9\<close> for the string to be parsed: those of the
  month, the first of the day, and the second of the day unless the first is \<^verbatim>\<open>1\<close> or
  \<^verbatim>\<open>2\<close>.
\<close>

definition month_and_day_in_ascii :: "unicode \<Rightarrow> bool" where
  "month_and_day_in_ascii s =
     (is_ascii_digit (s ! 5) \<and> is_ascii_digit (s ! 6) \<and> is_ascii_digit (s ! 8) \<and>
      (is_ascii_digit (s ! 9) \<or> s ! 8 = ord CHR ''1'' \<or> s ! 8 = ord CHR ''2''))"

text \<open>A string in which every decimal digit is one of \<^verbatim>\<open>0\<close> to \<^verbatim>\<open>9\<close>.\<close>

definition only_ascii_digits :: "unicode \<Rightarrow> bool" where
  "only_ascii_digits s = (\<forall>c \<in> set s. is_digit c \<longrightarrow> is_ascii_digit c)"

definition year_of :: "unicode \<Rightarrow> int" where
  "year_of s =
     1000 * digit_val (s ! 0) + 100 * digit_val (s ! 1) + 10 * digit_val (s ! 2) +
     digit_val (s ! 3)"

definition month_of :: "unicode \<Rightarrow> int" where
  "month_of s = 10 * digit_val (s ! 5) + digit_val (s ! 6)"

definition day_of :: "unicode \<Rightarrow> int" where
  "day_of s = 10 * digit_val (s ! 8) + digit_val (s ! 9)"

definition leap_year :: "int \<Rightarrow> bool" where
  "leap_year y = (4 dvd y \<and> (\<not> 100 dvd y \<or> 400 dvd y))"

definition length_of_month :: "int \<Rightarrow> int \<Rightarrow> int" where
  "length_of_month y m =
     (if m = 2 then (if leap_year y then 29 else 28)
      else if m = 4 \<or> m = 6 \<or> m = 9 \<or> m = 11 then 30 else 31)"

text \<open>
  A real calendar date: a year from 1 on (the calendar has no year 0), a month of the
  year and a day of that month.
\<close>

definition real_calendar_date :: "int \<Rightarrow> int \<Rightarrow> int \<Rightarrow> bool" where
  "real_calendar_date y m d =
     (1 \<le> y \<and> 1 \<le> m \<and> m \<le> 12 \<and> 1 \<le> d \<and> d \<le> length_of_month y m)"

subsection \<open>Days until the next anniversary\<close>

text \<open>
  The number of a day, counted on the calendar: the days of the years before, the days
  of the months before, and the day of the month; 1 January of year 1 is day 1.
\<close>

definition year_length :: "int \<Rightarrow> int" where
  "year_length y = (if leap_year y then 366 else 365)"

definition day_number :: "int \<Rightarrow> int \<Rightarrow> int \<Rightarrow> int" where
  "day_number y m d =
     sum_list (map year_length [1..y - 1]) + sum_list (map (length_of_month y) [1..m - 1]) + d"

text \<open>
  The month and day of the string, its year ignored; the candidate in today's year; the
  candidate of the next year when that one is strictly earlier than today; the candidate
  minus today in whole days.
\<close>

definition reference_days :: "unicode \<Rightarrow> date \<Rightarrow> int" where
  "reference_days s today =
     (let m = month_of s; d = day_of s;
          candidate_year =
            (if m < month today \<or> (m = month today \<and> d < day today)
             then year today + 1 else year today)
      in day_number candidate_year m d - day_number (year today) (month today) (day today))"

subsection \<open>Records, rows and search\<close>

text \<open>
  The invariant of the data model on a record and on a row, the record a row is read
  back as, and the row a record is stored as. Only a record whose cost is a number is
  ever stored; \<open>stored_cost\<close> is that number.
\<close>

definition subscription_invariant :: "subscription \<Rightarrow> bool" where
  "subscription_invariant s = (float_le (Num 0) (cost s) \<and> validate_date (renewal_date s))"

definition row_invariant :: "row \<Rightarrow> bool" where
  "row_invariant r = (0 \<le> row_cost r \<and> validate_date (row_renewal_date r))"

definition as_subscription :: "row \<Rightarrow> subscription" where
  "as_subscription r =
     \<lparr>sub_id = Some (row_id r), name = row_name r, category = row_category r,
      cost = Num (row_cost r), renewal_date = row_renewal_date r,
      payment_method = row_payment_method r\<rparr>"

fun stored_cost :: "pyfloat \<Rightarrow> real" where
  "stored_cost (Num k) = k"
| "stored_cost NaN = 0"

definition as_row :: "int \<Rightarrow> subscription \<Rightarrow> row" where
  "as_row i s =
     \<lparr>row_id = i, row_name = name s, row_category = category s,
      row_cost = stored_cost (cost s), row_renewal_date = renewal_date s,
      row_payment_method = payment_method s\<rparr>"

text \<open>
  Containment of a query in a text up to the case of the letters \<^verbatim>\<open>A\<close>..\<^verbatim>\<open>Z\<close> and of
  no other letter: \<^verbatim>\<open>e\<close> with an acute accent and its capital are different characters
  here. A literal query has no \<^verbatim>\<open>LIKE\<close> wildcard and no capital letter that
  \<^verbatim>\<open>str.lower\<close> folds and SQLite does not.
\<close>

definition contains_ignoring_ascii_case :: "string \<Rightarrow> string \<Rightarrow> bool" where
  "contains_ignoring_ascii_case text query =
     sublist (map ascii_lower_char query) (map ascii_lower_char text)"

definition literal_query :: "string \<Rightarrow> bool" where
  "literal_query q =
     (CHR ''%'' \<notin> set q \<and> CHR ''_'' \<notin> set q \<and> py_lower q = map ascii_lower_char q)"

subsection \<open>Example data\<close>

definition netflix :: subscription where
  "netflix = \<lparr>sub_id = None, name = ''Netflix'', category = ''Streaming'', cost = Num 15.99,
     renewal_date = ustr ''2024-01-10'', payment_method = ''Credit Card''\<rparr>"

definition dropbox :: subscription where
  "dropbox = \<lparr>sub_id = None, name = ''Dropbox Plus'', category = ''Cloud Storage'',
     cost = Num 9.99, renewal_date = ustr ''2024-03-15'', payment_method = ''PayPal''\<rparr>"

definition gym :: subscription where
  "gym = \<lparr>sub_id = None, name = ''Gym'', category = ''Fitness'', cost = Num 52.99,
     renewal_date = ustr ''2024-02-01'', payment_method = ''Debit Card''\<rparr>"

definition audible :: subscription where
  "audible = \<lparr>sub_id = None, name = ''Audible'', category = ''Books'', cost = Num 14.95,
     renewal_date = ustr ''2023-01-10'', payment_method = ''PayPal''\<rparr>"


definition example_db :: database where
  "example_db =
     \<lparr>rows = [as_row 1 netflix, as_row 2 dropbox, as_row 3 gym, as_row 4 audible], seq = 4\<rparr>"



text \<open>
  Date strings with fullwidth digits (U+FF10 to U+FF19): the year of the first, the
  last digit of the second and the first month digit of the third.
\<close>

definition fullwidth_year :: unicode where
  "fullwidth_year = [0xFF12, 0xFF10, 0xFF12, 0xFF14] @ ustr ''-01-10''"

definition fullwidth_day_digit :: unicode where
  "fullwidth_day_digit = ustr ''2024-01-1'' @ [0xFF15]"

definition fullwidth_month_digit :: unicode where
  "fullwidth_month_digit = ustr ''2024-'' @ [0xFF10] @ ustr ''1-10''"

section \<open>Date strings\<close>

subsection \<open>Digits and the directives of \<^verbatim>\<open>strptime\<close>\<close>

lemma ord_simps:
  "ord CHR ''-'' = 45" "ord CHR '' '' = 32" "ord CHR 0x0A = 10"
  "ord CHR ''0'' = 48" "ord CHR ''1'' = 49" "ord CHR ''2'' = 50" "ord CHR ''3'' = 51"
  "ord CHR ''9'' = 57"
  by (simp_all add: ord_def)

lemma decimal_zeros_cases: "z \<in> set DECIMAL_ZEROS \<Longrightarrow> z = 48 \<or> 1632 \<le> z"
  unfolding DECIMAL_ZEROS_def by auto

lemma decimal_SomeD:
  assumes "decimal c = Some v"
  shows "0 \<le> v" "v \<le> 9" "(48 \<le> c \<and> c \<le> 57 \<and> v = c - 48) \<or> 1632 \<le> c"
proof -
  from assms obtain z where f: "find (\<lambda>z. z \<le> c \<and> c \<le> z + 9) DECIMAL_ZEROS = Some z"
    and v: "v = c - z"
    by (auto simp: decimal_def)
  from f have z: "z \<in> set DECIMAL_ZEROS" "z \<le> c" "c \<le> z + 9"
    by (auto simp: find_Some_iff)
  from z v show "0 \<le> v" "v \<le> 9" by simp_all
  from decimal_zeros_cases[OF z(1)] z(2,3) v
  show "(48 \<le> c \<and> c \<le> 57 \<and> v = c - 48) \<or> 1632 \<le> c" by auto
qed

lemma decimal_ascii: "48 \<le> c \<Longrightarrow> c \<le> 57 \<Longrightarrow> decimal c = Some (c - 48)"
  by (simp add: decimal_def DECIMAL_ZEROS_def)

lemma is_ascii_digit_iff: "is_ascii_digit c = (48 \<le> c \<and> c \<le> 57)"
  by (simp add: is_ascii_digit_def ord_simps)

lemma is_ascii_digit_is_digit: "is_ascii_digit c \<Longrightarrow> is_digit c"
  by (simp add: is_ascii_digit_iff is_digit_def decimal_ascii)

lemma digit_val_ascii: "is_ascii_digit c \<Longrightarrow> digit_val c = c - 48"
  by (simp add: is_ascii_digit_iff digit_val_def decimal_ascii)

lemma is_digit_cases: "is_digit c \<Longrightarrow> is_ascii_digit c \<or> 1632 \<le> c"
  using decimal_SomeD(3)[of c] by (auto simp: is_digit_def is_ascii_digit_iff)

lemma digit_val_range: "is_digit c \<Longrightarrow> 0 \<le> digit_val c \<and> digit_val c \<le> 9"
  using decimal_SomeD(1,2)[of c] by (auto simp: is_digit_def digit_val_def)

lemma match_dash_digit: "is_digit b \<Longrightarrow> match_dash (b # r) = None"
  using is_digit_cases[of b] by (auto simp: is_ascii_digit_iff ord_simps)

lemma in_range_iff:
  "in_range (CHR ''0'') (CHR ''1'') c = (48 \<le> c \<and> c \<le> 49)"
  "in_range (CHR ''0'') (CHR ''2'') c = (48 \<le> c \<and> c \<le> 50)"
  "in_range (CHR ''1'') (CHR ''2'') c = (49 \<le> c \<and> c \<le> 50)"
  "in_range (CHR ''1'') (CHR ''9'') c = (49 \<le> c \<and> c \<le> 57)"
  by (simp_all add: in_range_def ord_simps)

lemma alts_m_digits:
  assumes "is_digit a" "is_digit b"
  shows "alts_m (a # b # rest) =
     (if is_ascii_digit a \<and> is_ascii_digit b \<and>
         1 \<le> 10 * digit_val a + digit_val b \<and> 10 * digit_val a + digit_val b \<le> 12
      then [(10 * digit_val a + digit_val b, rest)] else []) @
     (if in_range (CHR ''1'') (CHR ''9'') a then [(digit_val a, b # rest)] else [])"
proof (cases "is_ascii_digit a")
  case a: True
  show ?thesis
  proof (cases "is_ascii_digit b")
    case b: True
    from a b show ?thesis
      by (auto simp: digit_val_ascii in_range_iff ord_simps is_ascii_digit_iff)
  next
    case b: False
    with is_digit_cases[OF assms(2)] have "1632 \<le> b" by simp
    with a b show ?thesis
      by (auto simp: digit_val_ascii in_range_iff ord_simps is_ascii_digit_iff)
  qed
next
  case a: False
  with is_digit_cases[OF assms(1)] have "1632 \<le> a" by simp
  with a show ?thesis
    by (auto simp: in_range_iff ord_simps)
qed

lemma alts_d_digits:
  assumes "is_digit a" "is_digit b"
  shows "alts_d (a # b # rest) =
     (if in_range (CHR ''1'') (CHR ''2'') a \<or>
         (is_ascii_digit a \<and> is_ascii_digit b \<and>
          1 \<le> 10 * digit_val a + digit_val b \<and> 10 * digit_val a + digit_val b \<le> 31)
      then [(10 * digit_val a + digit_val b, rest)] else []) @
     (if in_range (CHR ''1'') (CHR ''9'') a then [(digit_val a, b # rest)] else [])"
proof (cases "is_ascii_digit a")
  case a: True
  show ?thesis
  proof (cases "is_ascii_digit b")
    case b: True
    from a b assms(2) show ?thesis
      by (auto simp: digit_val_ascii in_range_iff ord_simps is_ascii_digit_iff)
  next
    case b: False
    with is_digit_cases[OF assms(2)] have "1632 \<le> b" by simp
    with a b assms(2) show ?thesis
      by (auto simp: digit_val_ascii in_range_iff ord_simps is_ascii_digit_iff)
  qed
next
  case a: False
  with is_digit_cases[OF assms(1)] have "1632 \<le> a" by simp
  with a show ?thesis
    by (auto simp: in_range_iff ord_simps is_ascii_digit_iff)
qed

lemma month_1_12_cases:
  fixes m :: int
  assumes "1 \<le> m" "m \<le> 12"
  shows "m = 1 \<or> m = 2 \<or> m = 3 \<or> m = 4 \<or> m = 5 \<or> m = 6 \<or> m = 7 \<or> m = 8 \<or> m = 9 \<or> m = 10 \<or> m = 11 \<or> m = 12"
  using assms by presburger

lemma days_in_month_le_31: "1 \<le> m \<Longrightarrow> m \<le> 12 \<Longrightarrow> days_in_month y m \<le> 31"
  by (drule (1) month_1_12_cases) (auto simp: days_in_month_def DAYS_IN_MONTH_def)

lemma date_new_out_of_range:
  assumes "\<not> (1 \<le> m \<and> m \<le> 12 \<and> 1 \<le> d \<and> d \<le> 31)"
  shows "date_new y m d = Inl (ValueError Library_date_error)"
proof -
  have "\<not> check_date_fields y m d"
    using assms days_in_month_le_31[of m y] unfolding check_date_fields_def by linarith
  then show ?thesis by (simp add: date_new_def)
qed

lemma first_match_if_app:
  "first_match k ((if c then [x] else []) @ ys) =
     (if c then (case k x of Some r \<Rightarrow> Some r | None \<Rightarrow> first_match k ys) else first_match k ys)"
  by simp

lemma first_match_if:
  "first_match k (if c then [x] else []) = (if c then k x else None)"
  by (simp split: option.splits)

lemma strptime_match_shape:
  assumes dg: "is_digit y1" "is_digit y2" "is_digit y3" "is_digit y4"
    "is_digit m1" "is_digit m2" "is_digit d1" "is_digit d2"
   and Y: "Y = 1000 * digit_val y1 + 100 * digit_val y2 + 10 * digit_val y3 + digit_val y4"
   and M: "M = 10 * digit_val m1 + digit_val m2"
   and D: "D = 10 * digit_val d1 + digit_val d2"
   and MOK: "MOK = (is_ascii_digit m1 \<and> is_ascii_digit m2 \<and> 1 \<le> M \<and> M \<le> 12)"
   and DOK: "DOK = (in_range (CHR ''1'') (CHR ''2'') d1 \<or>
                    (is_ascii_digit d1 \<and> is_ascii_digit d2 \<and> 1 \<le> D \<and> D \<le> 31))"
  shows "strptime_match
           (y1 # y2 # y3 # y4 # ord CHR ''-'' # m1 # m2 # ord CHR ''-'' # d1 # d2 # rest) =
      (if MOK
       then (if DOK then Some (Y, M, D, rest)
             else if in_range (CHR ''1'') (CHR ''9'') d1 then Some (Y, M, digit_val d1, d2 # rest)
             else None)
       else None)"
proof -
  have y: "match_Y (y1 # y2 # y3 # y4 # ord CHR ''-'' # m1 # m2 # ord CHR ''-'' # d1 # d2 # rest) =
           Some (Y, ord CHR ''-'' # m1 # m2 # ord CHR ''-'' # d1 # d2 # rest)"
    using dg(1-4) unfolding Y by simp
  have am: "alts_m (m1 # m2 # ord CHR ''-'' # d1 # d2 # rest) =
     (if MOK then [(M, ord CHR ''-'' # d1 # d2 # rest)] else []) @
     (if in_range (CHR ''1'') (CHR ''9'') m1
      then [(digit_val m1, m2 # ord CHR ''-'' # d1 # d2 # rest)] else [])"
    unfolding MOK M by (rule alts_m_digits[OF dg(5) dg(6)])
  have ad: "alts_d (d1 # d2 # rest) =
     (if DOK then [(D, rest)] else []) @
     (if in_range (CHR ''1'') (CHR ''9'') d1 then [(digit_val d1, d2 # rest)] else [])"
    unfolding DOK D by (rule alts_d_digits[OF dg(7) dg(8)])
  have md: "match_dash (m2 # ord CHR ''-'' # d1 # d2 # rest) = None"
    by (rule match_dash_digit[OF dg(6)])
  have dash: "\<And>r. match_dash (ord CHR ''-'' # r) = Some r"
    by simp
  show ?thesis
    unfolding strptime_match_def y option.case prod.case dash am first_match_if_app md ad
      first_match_if
    by (simp only: option.case prod.case first_match.simps split: if_splits) simp
qed

text \<open>
  The string is parsed when the digits of the month and the first digit of the day are
  \<^verbatim>\<open>0\<close> to \<^verbatim>\<open>9\<close>, and the second digit of the day too unless the first is \<^verbatim>\<open>1\<close> or
  \<^verbatim>\<open>2\<close>.
\<close>

lemma strptime_shape:
  assumes dg: "is_digit y1" "is_digit y2" "is_digit y3" "is_digit y4"
    "is_digit m1" "is_digit m2" "is_digit d1" "is_digit d2"
   and Y: "Y = 1000 * digit_val y1 + 100 * digit_val y2 + 10 * digit_val y3 + digit_val y4"
   and M: "M = 10 * digit_val m1 + digit_val m2"
   and D: "D = 10 * digit_val d1 + digit_val d2"
  shows "strptime [y1, y2, y3, y4, ord CHR ''-'', m1, m2, ord CHR ''-'', d1, d2] =
     (if is_ascii_digit m1 \<and> is_ascii_digit m2 \<and> is_ascii_digit d1 \<and>
         (is_ascii_digit d2 \<or> d1 = ord CHR ''1'' \<or> d1 = ord CHR ''2'')
      then date_new Y M D else Inl (ValueError Library_date_error))"
proof -
  define MOK where "MOK = (is_ascii_digit m1 \<and> is_ascii_digit m2 \<and> 1 \<le> M \<and> M \<le> 12)"
  define DOK where "DOK = (in_range (CHR ''1'') (CHR ''2'') d1 \<or>
                    (is_ascii_digit d1 \<and> is_ascii_digit d2 \<and> 1 \<le> D \<and> D \<le> 31))"
  define A where "A = (is_ascii_digit m1 \<and> is_ascii_digit m2 \<and> is_ascii_digit d1 \<and>
         (is_ascii_digit d2 \<or> d1 = ord CHR ''1'' \<or> d1 = ord CHR ''2''))"
  note m = strptime_match_shape[OF dg Y M D MOK_def DOK_def, of "[]"]
  have r12: "in_range (CHR ''1'') (CHR ''2'') d1 = (d1 = ord CHR ''1'' \<or> d1 = ord CHR ''2'')"
    by (auto simp: in_range_iff ord_simps)
  have d12: "1 \<le> D \<and> D \<le> 31" if "in_range (CHR ''1'') (CHR ''2'') d1"
  proof -
    from that have "is_ascii_digit d1" "digit_val d1 = 1 \<or> digit_val d1 = 2"
      by (auto simp: in_range_iff is_ascii_digit_iff digit_val_def decimal_ascii)
    with digit_val_range[OF dg(8)] show ?thesis unfolding D by auto
  qed
  have a12: "is_ascii_digit d1" if "in_range (CHR ''1'') (CHR ''2'') d1"
    using that by (auto simp: in_range_iff is_ascii_digit_iff)
  have both: "(MOK \<and> DOK) = (A \<and> 1 \<le> M \<and> M \<le> 12 \<and> 1 \<le> D \<and> D \<le> 31)"
    unfolding MOK_def DOK_def A_def r12[symmetric] using d12 a12 by blast
  have s: "strptime [y1, y2, y3, y4, ord CHR ''-'', m1, m2, ord CHR ''-'', d1, d2] =
      (if MOK \<and> DOK then date_new Y M D else Inl (ValueError Library_date_error))"
    unfolding strptime_def m by (simp split: if_splits)
  show ?thesis
  proof (cases "1 \<le> M \<and> M \<le> 12 \<and> 1 \<le> D \<and> D \<le> 31")
    case True
    with both have "(MOK \<and> DOK) = A" by blast
    then show ?thesis unfolding s A_def by simp
  next
    case False
    with both have n: "\<not> (MOK \<and> DOK)" by blast
    from date_new_out_of_range[OF False] n show ?thesis
      unfolding s by simp
  qed
qed

lemma strptime_shape_extra:
  assumes dg: "is_digit y1" "is_digit y2" "is_digit y3" "is_digit y4"
    "is_digit m1" "is_digit m2" "is_digit d1" "is_digit d2"
  shows "strptime [y1, y2, y3, y4, ord CHR ''-'', m1, m2, ord CHR ''-'', d1, d2, c] =
     Inl (ValueError Library_date_error)"
  unfolding strptime_def strptime_match_shape[OF dg refl refl refl refl refl, of "[c]"]
  by (simp split: if_splits)

subsection \<open>\<^verbatim>\<open>validate_date\<close> against the pattern and the calendar\<close>

lemma date_shapeE:
  assumes "date_shape s"
  obtains y1 y2 y3 y4 m1 m2 d1 d2 where
    "s = [y1, y2, y3, y4, ord CHR ''-'', m1, m2, ord CHR ''-'', d1, d2]"
    "is_digit y1" "is_digit y2" "is_digit y3" "is_digit y4"
    "is_digit m1" "is_digit m2" "is_digit d1" "is_digit d2"
  using assms by (rule date_shape.elims) auto

lemma length_10D:
  assumes "length s = 10"
  shows "s = [s ! 0, s ! 1, s ! 2, s ! 3, s ! 4, s ! 5, s ! 6, s ! 7, s ! 8, s ! 9]"
proof -
  from assms obtain a b c d e f g h i j where "s = [a, b, c, d, e, f, g, h, i, j]"
    by (auto simp: numeral_eq_Suc length_Suc_conv)
  then show ?thesis by simp
qed

lemma matches_iff_shape: "matches_with_any_digits s = date_shape s"
proof
  assume m: "matches_with_any_digits s"
  then have "length s = 10" by (simp add: matches_with_any_digits_def)
  from length_10D[OF this] obtain a b c d e f g h i j where s: "s = [a, b, c, d, e, f, g, h, i, j]"
    by blast
  from m show "date_shape s"
    unfolding s matches_with_any_digits_def by simp
next
  assume "date_shape s"
  then show "matches_with_any_digits s"
    by (elim date_shapeE) (simp add: matches_with_any_digits_def)
qed

lemma is_leap_iff: "is_leap y = leap_year y"
  unfolding is_leap_def leap_year_def by presburger

lemma days_in_month_eq:
  assumes "1 \<le> m" "m \<le> 12"
  shows "days_in_month y m = length_of_month y m"
  using month_1_12_cases[OF assms]
  by (elim disjE; simp add: days_in_month_def DAYS_IN_MONTH_def length_of_month_def is_leap_iff)

lemma check_date_fields_iff:
  "check_date_fields y m d = (real_calendar_date y m d \<and> y \<le> 9999)"
proof (cases "1 \<le> m \<and> m \<le> 12")
  case True
  then show ?thesis
    using days_in_month_eq[of m y]
    by (auto simp: check_date_fields_def real_calendar_date_def MINYEAR_def MAXYEAR_def)
next
  case False
  then show ?thesis
    by (auto simp: check_date_fields_def real_calendar_date_def)
qed

lemma fields_of_explicit:
  "year_of [y1, y2, y3, y4, h1, m1, m2, h2, d1, d2] =
     1000 * digit_val y1 + 100 * digit_val y2 + 10 * digit_val y3 + digit_val y4"
  "month_of [y1, y2, y3, y4, h1, m1, m2, h2, d1, d2] = 10 * digit_val m1 + digit_val m2"
  "day_of [y1, y2, y3, y4, h1, m1, m2, h2, d1, d2] = 10 * digit_val d1 + digit_val d2"
  "month_and_day_in_ascii [y1, y2, y3, y4, h1, m1, m2, h2, d1, d2] =
     (is_ascii_digit m1 \<and> is_ascii_digit m2 \<and> is_ascii_digit d1 \<and>
      (is_ascii_digit d2 \<or> d1 = ord CHR ''1'' \<or> d1 = ord CHR ''2''))"
  by (simp_all add: year_of_def month_of_def day_of_def month_and_day_in_ascii_def)

lemma strptime_explicit:
  assumes dg: "is_digit y1" "is_digit y2" "is_digit y3" "is_digit y4"
    "is_digit m1" "is_digit m2" "is_digit d1" "is_digit d2"
    and s: "s = [y1, y2, y3, y4, ord CHR ''-'', m1, m2, ord CHR ''-'', d1, d2]"
  shows "strptime s =
     (if month_and_day_in_ascii s then date_new (year_of s) (month_of s) (day_of s)
      else Inl (ValueError Library_date_error))"
  unfolding s fields_of_explicit by (rule strptime_shape[OF dg refl refl refl])

lemma validate_date_explicit:
  assumes dg: "is_digit y1" "is_digit y2" "is_digit y3" "is_digit y4"
    "is_digit m1" "is_digit m2" "is_digit d1" "is_digit d2"
    and s: "s = [y1, y2, y3, y4, ord CHR ''-'', m1, m2, ord CHR ''-'', d1, d2]"
  shows "validate_date s =
     (month_and_day_in_ascii s \<and> check_date_fields (year_of s) (month_of s) (day_of s))"
proof -
  note p = strptime_explicit[OF dg s]
  have "date_shape s"
    unfolding s date_shape.simps using dg by simp
  then have r: "re_match_date_pattern s"
    unfolding re_match_date_pattern_def by (rule disjI1)
  have n: "s \<noteq> []"
    unfolding s by simp
  show ?thesis
    unfolding validate_date_def p date_new_def using r n by simp
qed

lemma date_shape_nth:
  assumes "date_shape s"
  shows "is_digit (s ! 0)" "is_digit (s ! 1)" "is_digit (s ! 2)" "is_digit (s ! 3)"
     "is_digit (s ! 5)" "is_digit (s ! 6)" "is_digit (s ! 8)" "is_digit (s ! 9)"
     "s = [s ! 0, s ! 1, s ! 2, s ! 3, ord CHR ''-'', s ! 5, s ! 6, ord CHR ''-'', s ! 8, s ! 9]"
proof -
  from assms have m: "matches_with_any_digits s" by (simp only: matches_iff_shape)
  then have len: "length s = 10" unfolding matches_with_any_digits_def by (rule conjunct1)
  from m show "is_digit (s ! 0)" "is_digit (s ! 1)" "is_digit (s ! 2)" "is_digit (s ! 3)"
     "is_digit (s ! 5)" "is_digit (s ! 6)" "is_digit (s ! 8)" "is_digit (s ! 9)"
    unfolding matches_with_any_digits_def by blast+
  from m have h: "s ! 4 = ord CHR ''-''" "s ! 7 = ord CHR ''-''"
    unfolding matches_with_any_digits_def by blast+
  have "s = [s ! 0, s ! 1, s ! 2, s ! 3, s ! 4, s ! 5, s ! 6, s ! 7, s ! 8, s ! 9]"
    by (rule length_10D[OF len])
  then show "s = [s ! 0, s ! 1, s ! 2, s ! 3, ord CHR ''-'', s ! 5, s ! 6, ord CHR ''-'', s ! 8, s ! 9]"
    unfolding h .
qed

lemma validate_date_shape:
  assumes "date_shape s"
  shows "validate_date s =
     (month_and_day_in_ascii s \<and> check_date_fields (year_of s) (month_of s) (day_of s))"
  by (rule validate_date_explicit[OF date_shape_nth[OF assms]])

lemma validate_date_not_shape:
  assumes "\<not> date_shape s"
  shows "\<not> validate_date s"
proof (cases "s \<noteq> [] \<and> last s = ord CHR 0x0A \<and> date_shape (butlast s)")
  case True
  then have ds: "date_shape (butlast s)" by blast
  from True have "s \<noteq> []" by (rule conjunct1)
  then have s: "butlast s @ [last s] = s" by (rule append_butlast_last_id)
  note b = date_shape_nth[OF ds]
  have e: "s = [butlast s ! 0, butlast s ! 1, butlast s ! 2, butlast s ! 3, ord CHR ''-'',
                butlast s ! 5, butlast s ! 6, ord CHR ''-'', butlast s ! 8, butlast s ! 9, last s]"
    by (subst s[symmetric], subst b(9)) simp
  have "strptime s = Inl (ValueError Library_date_error)"
    by (subst e) (rule strptime_shape_extra[OF b(1-8)])
  then show ?thesis unfolding validate_date_def by simp
next
  case False
  with assms have "\<not> re_match_date_pattern s"
    unfolding re_match_date_pattern_def by blast
  then show ?thesis unfolding validate_date_def by simp
qed

lemma year_of_le_9999:
  assumes "date_shape s"
  shows "year_of s \<le> 9999"
  using date_shape_nth(1-4)[OF assms, THEN digit_val_range]
  unfolding year_of_def by linarith

lemma validate_date_iff:
  "validate_date s =
     (matches_with_any_digits s \<and> month_and_day_in_ascii s \<and>
      real_calendar_date (year_of s) (month_of s) (day_of s))"
proof (cases "date_shape s")
  case True
  then show ?thesis
    using year_of_le_9999[OF True]
    by (simp add: validate_date_shape check_date_fields_iff matches_iff_shape)
next
  case False
  then show ?thesis
    by (simp add: validate_date_not_shape matches_iff_shape)
qed

lemma matches_ascii_digits:
  assumes "only_ascii_digits s"
  shows "matches_with_any_digits s = matches_YYYY_MM_DD s"
proof
  assume m: "matches_with_any_digits s"
  then have len: "length s = 10" by (simp add: matches_with_any_digits_def)
  have a: "is_ascii_digit (s ! i)" if "i < 10" "is_digit (s ! i)" for i
    using assms that len by (simp add: only_ascii_digits_def nth_mem)
  from m show "matches_YYYY_MM_DD s"
    unfolding matches_with_any_digits_def matches_YYYY_MM_DD_def by (simp add: a)
next
  assume "matches_YYYY_MM_DD s"
  then show "matches_with_any_digits s"
    unfolding matches_with_any_digits_def matches_YYYY_MM_DD_def
    by (simp add: is_ascii_digit_is_digit)
qed

lemma matches_YYYY_MM_DD_ascii: "matches_YYYY_MM_DD s \<Longrightarrow> month_and_day_in_ascii s"
  by (simp add: matches_YYYY_MM_DD_def month_and_day_in_ascii_def)

text \<open>
  Claim C8, as amended. For every string in which every decimal digit is one of \<^verbatim>\<open>0\<close>
  to \<^verbatim>\<open>9\<close>, \<^verbatim>\<open>validate_date\<close> returns true exactly when the string is four digits, a
  dash, two digits, a dash, two digits and its three numbers denote a real calendar
  date. For every string whatever, it returns true exactly when the string has that
  shape with decimal digits of any script, the digits of the month and the first digit
  of the day are \<^verbatim>\<open>0\<close> to \<^verbatim>\<open>9\<close>, the second digit of the day is too unless the first
  is \<^verbatim>\<open>1\<close> or \<^verbatim>\<open>2\<close>, and the three numbers denote a real calendar date. It is false on
  \<^verbatim>\<open>2024-02-30\<close>, \<^verbatim>\<open>not-a-date\<close> and the empty string and true on \<^verbatim>\<open>2024-02-29\<close>. The
  function is total: the \<^verbatim>\<open>ValueError\<close> of \<^verbatim>\<open>strptime\<close> is caught inside it, so it never
  raises.
\<close>

theorem validate_date_iff_pattern_and_real_date:
  "(\<forall>s. only_ascii_digits s \<longrightarrow>
         validate_date s =
           (matches_YYYY_MM_DD s \<and> real_calendar_date (year_of s) (month_of s) (day_of s))) \<and>
   (\<forall>s. validate_date s =
           (matches_with_any_digits s \<and> month_and_day_in_ascii s \<and>
            real_calendar_date (year_of s) (month_of s) (day_of s))) \<and>
   validate_date (ustr ''2024-02-30'') = False \<and>
   validate_date (ustr ''2024-02-29'') = True \<and>
   validate_date (ustr ''not-a-date'') = False \<and>
   validate_date (ustr '''') = False"
proof (intro conjI allI impI)
  fix s
  assume a: "only_ascii_digits s"
  show "validate_date s =
         (matches_YYYY_MM_DD s \<and> real_calendar_date (year_of s) (month_of s) (day_of s))"
    unfolding validate_date_iff matches_ascii_digits[OF a]
    using matches_YYYY_MM_DD_ascii[of s] by blast
next
  fix s
  show "validate_date s =
          (matches_with_any_digits s \<and> month_and_day_in_ascii s \<and>
           real_calendar_date (year_of s) (month_of s) (day_of s))"
    by (rule validate_date_iff)
next
  show "validate_date (ustr ''2024-02-30'') = False" by code_simp
  show "validate_date (ustr ''2024-02-29'') = True" by code_simp
  show "validate_date (ustr ''not-a-date'') = False" by code_simp
  show "validate_date (ustr '''') = False" by code_simp
qed

theorem validate_date_iff_pattern_and_real_date_witness:
  "only_ascii_digits (ustr ''2023-11-30'') \<and>
   validate_date (ustr ''2023-11-30'') \<and>
   matches_YYYY_MM_DD (ustr ''2023-11-30'') \<and>
   real_calendar_date (year_of (ustr ''2023-11-30'')) (month_of (ustr ''2023-11-30''))
     (day_of (ustr ''2023-11-30'')) \<and>
   only_ascii_digits (ustr ''2023-11-31'') \<and>
   \<not> validate_date (ustr ''2023-11-31'') \<and>
   matches_YYYY_MM_DD (ustr ''2023-11-31'') \<and>
   \<not> real_calendar_date (year_of (ustr ''2023-11-31'')) (month_of (ustr ''2023-11-31''))
     (day_of (ustr ''2023-11-31''))"
proof -
  have a: "only_ascii_digits (ustr ''2023-11-30'')" "only_ascii_digits (ustr ''2023-11-31'')"
    by code_simp+
  have v: "validate_date (ustr ''2023-11-30'')" "\<not> validate_date (ustr ''2023-11-31'')"
    by code_simp+
  have m: "matches_YYYY_MM_DD (ustr ''2023-11-30'')" "matches_YYYY_MM_DD (ustr ''2023-11-31'')"
    by code_simp+
  note t = validate_date_iff_pattern_and_real_date[THEN conjunct1, rule_format]
  from t[OF a(1)] v(1) m(1)
  have "real_calendar_date (year_of (ustr ''2023-11-30'')) (month_of (ustr ''2023-11-30''))
     (day_of (ustr ''2023-11-30''))"
    by simp
  moreover from t[OF a(2)] v(2) m(2)
  have "\<not> real_calendar_date (year_of (ustr ''2023-11-31'')) (month_of (ustr ''2023-11-31''))
     (day_of (ustr ''2023-11-31''))"
    by simp
  ultimately show ?thesis
    using a v m by blast
qed

text \<open>
  The claim as stated fails on strings with digits of another script: with fullwidth
  digits in the year, or as the last digit of a day that starts with \<^verbatim>\<open>1\<close>, the string
  is valid and is not four, two and two of the digits \<^verbatim>\<open>0\<close> to \<^verbatim>\<open>9\<close>; with a
  fullwidth digit in the month it has the shape in decimal digits and denotes 10 January
  2024, and is not valid.
\<close>

theorem validate_date_fullwidth_digits_counterexample:
  "validate_date fullwidth_year \<and> \<not> matches_YYYY_MM_DD fullwidth_year \<and>
   validate_date fullwidth_day_digit \<and> \<not> matches_YYYY_MM_DD fullwidth_day_digit \<and>
   \<not> validate_date fullwidth_month_digit \<and>
   matches_with_any_digits fullwidth_month_digit \<and>
   real_calendar_date (year_of fullwidth_month_digit) (month_of fullwidth_month_digit)
     (day_of fullwidth_month_digit)"
proof (intro conjI)
  show "validate_date fullwidth_year" by code_simp
  show "\<not> matches_YYYY_MM_DD fullwidth_year" by code_simp
  show "validate_date fullwidth_day_digit" by code_simp
  show "\<not> matches_YYYY_MM_DD fullwidth_day_digit" by code_simp
  show "\<not> validate_date fullwidth_month_digit" by code_simp
  show "matches_with_any_digits fullwidth_month_digit" by code_simp
  show "real_calendar_date (year_of fullwidth_month_digit) (month_of fullwidth_month_digit)
     (day_of fullwidth_month_digit)" by code_simp
qed

section \<open>Days until renewal\<close>

subsection \<open>The ordinal of a date counts days\<close>

lemma div_step:
  fixes y k :: int
  assumes "0 < k"
  shows "y div k = (y - 1) div k + (if k dvd y then 1 else 0)"
proof (cases "k dvd y")
  case True
  then obtain q where q: "y = k * q" by (auto simp: dvd_def)
  have "(y - 1) div k = q - 1"
    by (rule int_div_pos_eq[where r = "k - 1"]) (use assms q in \<open>auto simp: algebra_simps\<close>)
  moreover have "y div k = q" using assms q by simp
  ultimately show ?thesis using True by simp
next
  case False
  define r where "r = y mod k"
  define q where "q = y div k"
  have y: "y = k * q + r" by (simp add: q_def r_def)
  have r: "0 < r" "r < k"
    using False assms by (auto simp: r_def dvd_eq_mod_eq_0 intro: le_neq_trans)
  have "(y - 1) div k = q"
    by (rule int_div_pos_eq[where r = "r - 1"]) (use y r in \<open>auto simp: algebra_simps\<close>)
  then show ?thesis using False by (simp add: q_def)
qed

lemma days_before_year_step:
  "days_before_year (y + 1) = days_before_year y + year_length y"
  unfolding days_before_year_def year_length_def leap_year_def Let_def
  using div_step[of 4 y] div_step[of 100 y] div_step[of 400 y]
  by (auto simp: algebra_simps)

lemma days_before_year_sum:
  assumes "1 \<le> y"
  shows "days_before_year y = sum_list (map year_length [1..y - 1])"
  using assms
proof (induction y rule: int_ge_induct)
  case base
  show ?case by (simp add: days_before_year_def)
next
  case (step i)
  have "[1..i + 1 - 1] = [1..i - 1] @ [i]"
    using step.hyps upto_rec2[of 1 i] by simp
  then show ?case
    using step.IH by (simp add: days_before_year_step)
qed

lemma upto_months:
  "[1..0::int] = []" "[1..1::int] = [1]" "[1..2::int] = [1, 2]" "[1..3::int] = [1, 2, 3]"
  "[1..4::int] = [1, 2, 3, 4]" "[1..5::int] = [1, 2, 3, 4, 5]" "[1..6::int] = [1, 2, 3, 4, 5, 6]"
  "[1..7::int] = [1, 2, 3, 4, 5, 6, 7]" "[1..8::int] = [1, 2, 3, 4, 5, 6, 7, 8]"
  "[1..9::int] = [1, 2, 3, 4, 5, 6, 7, 8, 9]" "[1..10::int] = [1, 2, 3, 4, 5, 6, 7, 8, 9, 10]"
  "[1..11::int] = [1, 2, 3, 4, 5, 6, 7, 8, 9, 10, 11]"
  by (simp_all add: upto_rec1)

lemma days_before_month_sum:
  assumes "1 \<le> m" "m \<le> 12"
  shows "days_before_month y m = sum_list (map (length_of_month y) [1..m - 1])"
  using month_1_12_cases[OF assms]
  by (elim disjE; simp add: days_before_month_def DAYS_BEFORE_MONTH_def length_of_month_def is_leap_iff upto_months)

lemma ymd2ord_day_number:
  "1 \<le> y \<Longrightarrow> 1 \<le> m \<Longrightarrow> m \<le> 12 \<Longrightarrow> ymd2ord y m d = day_number y m d"
  by (simp add: ymd2ord_def day_number_def days_before_year_sum days_before_month_sum)

subsection \<open>Ordinals within a year and across the year boundary\<close>

lemma validate_date_strptime:
  assumes "validate_date s"
  shows "strptime s = Inr \<lparr>year = year_of s, month = month_of s, day = day_of s\<rparr>"
    and "check_date_fields (year_of s) (month_of s) (day_of s)"
proof -
  have sh: "date_shape s"
    using assms validate_date_not_shape by blast
  from assms validate_date_shape[OF sh]
  have a: "month_and_day_in_ascii s"
    and c: "check_date_fields (year_of s) (month_of s) (day_of s)"
    by simp_all
  show "check_date_fields (year_of s) (month_of s) (day_of s)"
    by (rule c)
  have "strptime s = date_new (year_of s) (month_of s) (day_of s)"
    using strptime_explicit[OF date_shape_nth[OF sh]] a by simp
  then show "strptime s = Inr \<lparr>year = year_of s, month = month_of s, day = day_of s\<rparr>"
    unfolding date_new_def using c by simp
qed

lemma days_before_month_step:
  assumes "1 \<le> m" "m \<le> 11"
  shows "days_before_month y (m + 1) = days_before_month y m + days_in_month y m"
proof -
  from assms have "m = 1 \<or> m = 2 \<or> m = 3 \<or> m = 4 \<or> m = 5 \<or> m = 6 \<or> m = 7 \<or> m = 8 \<or> m = 9 \<or> m = 10 \<or> m = 11"
    by presburger
  then show ?thesis
    by (elim disjE; simp add: days_before_month_def DAYS_BEFORE_MONTH_def days_in_month_def DAYS_IN_MONTH_def)
qed

lemma days_in_month_ge_28:
  assumes "1 \<le> m" "m \<le> 12"
  shows "28 \<le> days_in_month y m"
  using month_1_12_cases[OF assms]
  by (elim disjE; simp add: days_in_month_def DAYS_IN_MONTH_def)

lemma days_before_month_mono:
  assumes "1 \<le> m" "m \<le> m'" "m' \<le> 12"
  shows "days_before_month y m \<le> days_before_month y m'"
  using assms(2,1,3)
proof (induction m' rule: int_ge_induct)
  case base
  show ?case by simp
next
  case (step i)
  then have "days_before_month y (i + 1) = days_before_month y i + days_in_month y i"
    by (intro days_before_month_step) auto
  moreover have "28 \<le> days_in_month y i"
    using step by (intro days_in_month_ge_28) auto
  ultimately show ?case using step by simp
qed

lemma days_before_month_12: "days_before_month y 12 + days_in_month y 12 = year_length y"
  by (simp add: days_before_month_def DAYS_BEFORE_MONTH_def days_in_month_def DAYS_IN_MONTH_def
      year_length_def is_leap_iff)

lemma days_before_month_1: "days_before_month y 1 = 0"
  by (simp add: days_before_month_def DAYS_BEFORE_MONTH_def)

lemma month_end_le_next:
  assumes "1 \<le> m" "m < m'" "m' \<le> 12"
  shows "days_before_month y m + days_in_month y m \<le> days_before_month y m'"
proof -
  have "days_before_month y (m + 1) = days_before_month y m + days_in_month y m"
    using assms by (intro days_before_month_step) auto
  moreover have "days_before_month y (m + 1) \<le> days_before_month y m'"
    using assms by (intro days_before_month_mono) auto
  ultimately show ?thesis by simp
qed

lemma day_of_year_le:
  assumes "1 \<le> m" "m \<le> 12" "d \<le> days_in_month y m"
  shows "days_before_month y m + d \<le> year_length y"
proof (cases "m = 12")
  case True
  then show ?thesis using assms(3) days_before_month_12[of y] by simp
next
  case False
  then have "days_before_month y m + days_in_month y m \<le> days_before_month y 12"
    using assms by (intro month_end_le_next) auto
  moreover have "0 \<le> days_in_month y 12"
    using days_in_month_ge_28[of 12 y] by simp
  ultimately show ?thesis
    using assms(3) days_before_month_12[of y] by linarith
qed

lemma ymd2ord_less:
  assumes "1 \<le> m" "m' \<le> 12" "d \<le> days_in_month y m" "1 \<le> d'"
    and "m < m' \<or> (m = m' \<and> d < d')"
  shows "ymd2ord y m d < ymd2ord y m' d'"
proof (cases "m < m'")
  case True
  then have "days_before_month y m + days_in_month y m \<le> days_before_month y m'"
    using assms by (intro month_end_le_next) auto
  then show ?thesis
    using assms(3,4) by (simp add: ymd2ord_def)
next
  case False
  with assms(5) show ?thesis by (simp add: ymd2ord_def)
qed

lemma ymd2ord_next_year:
  "ymd2ord (y + 1) m d - ymd2ord y m d = (if m \<le> 2 then year_length y else year_length (y + 1))"
proof -
  have "leap_year y \<Longrightarrow> \<not> leap_year (y + 1)"
    unfolding leap_year_def by presburger
  then show ?thesis
    by (auto simp: ymd2ord_def days_before_year_step days_before_month_def is_leap_iff year_length_def)
qed

lemma year_length_bounds: "365 \<le> year_length y" "year_length y \<le> 366"
  by (simp_all add: year_length_def)

lemma check_date_fieldsD:
  assumes "check_date_fields y m d"
  shows "1 \<le> y" "y \<le> 9999" "1 \<le> m" "m \<le> 12" "1 \<le> d" "d \<le> days_in_month y m"
  using assms by (simp_all add: check_date_fields_def MINYEAR_def MAXYEAR_def)

lemma calculate_days_until_renewal_cases:
  assumes "validate_date s"
  shows "calculate_days_until_renewal s today =
    (if \<not> check_date_fields (year today) (month_of s) (day_of s)
     then Inl (ValueError Error_calculating_days_until_renewal)
     else if month_of s < month today \<or> (month_of s = month today \<and> day_of s < day today)
     then (if check_date_fields (year today + 1) (month_of s) (day_of s)
           then Inr (ymd2ord (year today + 1) (month_of s) (day_of s) - toordinal today)
           else Inl (ValueError Error_calculating_days_until_renewal))
     else Inr (ymd2ord (year today) (month_of s) (day_of s) - toordinal today))"
  unfolding calculate_days_until_renewal_def days_until_body_def
    validate_date_strptime(1)[OF assms]
  using assms
  by (simp add: replace_year_def date_new_def date_lt_def date_sub_days_def toordinal_def Let_def)

lemma next_year_days:
  assumes t: "check_date_fields y tm td" and c: "check_date_fields y m d"
    and e: "m < tm \<or> (m = tm \<and> d < td)"
  shows "1 \<le> ymd2ord (y + 1) m d - ymd2ord y tm td"
    and "ymd2ord (y + 1) m d - ymd2ord y tm td \<le> 365"
proof -
  note T = check_date_fieldsD[OF t] and C = check_date_fieldsD[OF c]
  have "days_before_month (y + 1) 1 \<le> days_before_month (y + 1) m"
    using C by (intro days_before_month_mono) auto
  then have a: "0 \<le> days_before_month (y + 1) m"
    by (simp add: days_before_month_1)
  have b: "days_before_month y tm + td \<le> year_length y"
    using T by (intro day_of_year_le) auto
  show "1 \<le> ymd2ord (y + 1) m d - ymd2ord y tm td"
    using a b C(5) by (simp add: ymd2ord_def days_before_year_step)
  have "ymd2ord y m d < ymd2ord y tm td"
    using C T e by (intro ymd2ord_less) auto
  moreover have "ymd2ord (y + 1) m d - ymd2ord y m d \<le> 366"
    unfolding ymd2ord_next_year using year_length_bounds(2)[of y] year_length_bounds(2)[of "y + 1"]
    by simp
  ultimately show "ymd2ord (y + 1) m d - ymd2ord y tm td \<le> 365"
    by linarith
qed

lemma same_year_days:
  assumes t: "check_date_fields y tm td" and c: "check_date_fields y m d"
    and e: "\<not> (m < tm \<or> (m = tm \<and> d < td))"
  shows "0 \<le> ymd2ord y m d - ymd2ord y tm td"
    and "ymd2ord y m d - ymd2ord y tm td \<le> 365"
    and "(ymd2ord y m d - ymd2ord y tm td = 0) = (m = tm \<and> d = td)"
proof -
  note T = check_date_fieldsD[OF t] and C = check_date_fieldsD[OF c]
  have lt: "ymd2ord y tm td < ymd2ord y m d" if "tm < m \<or> (tm = m \<and> td < d)"
    using T C that by (intro ymd2ord_less) auto
  from e have "(tm < m \<or> (tm = m \<and> td < d)) \<or> (m = tm \<and> d = td)"
    by linarith
  then show "0 \<le> ymd2ord y m d - ymd2ord y tm td"
    using lt by auto
  show "(ymd2ord y m d - ymd2ord y tm td = 0) = (m = tm \<and> d = td)"
  proof (cases "m = tm \<and> d = td")
    case True
    then show ?thesis by simp
  next
    case False
    with e have "tm < m \<or> (tm = m \<and> td < d)" by linarith
    from lt[OF this] False show ?thesis by simp
  qed
  have "days_before_month y m + d \<le> year_length y"
    using C by (intro day_of_year_le) auto
  moreover have "days_before_month y 1 \<le> days_before_month y tm"
    using T by (intro days_before_month_mono) auto
  ultimately show "ymd2ord y m d - ymd2ord y tm td \<le> 365"
    using T(5) year_length_bounds(2)[of y] by (simp add: ymd2ord_def days_before_month_1)
qed

subsection \<open>The branches of \<^verbatim>\<open>calculate_days_until_renewal\<close>\<close>

lemma reference_days_ymd2ord:
  assumes t: "check_date_fields (year today) (month today) (day today)"
    and m: "1 \<le> month_of s" "month_of s \<le> 12"
  shows "reference_days s today =
     ymd2ord (if month_of s < month today \<or> (month_of s = month today \<and> day_of s < day today)
              then year today + 1 else year today) (month_of s) (day_of s) -
     ymd2ord (year today) (month today) (day today)"
proof -
  note T = check_date_fieldsD[OF t]
  show ?thesis
    unfolding reference_days_def Let_def
    using T m by (simp add: ymd2ord_day_number)
qed

lemma check_date_fields_other_year:
  assumes c: "check_date_fields y0 m d" and y: "1 \<le> y" "y \<le> 9999"
    and n: "m \<noteq> 2 \<or> d \<noteq> 29"
  shows "check_date_fields y m d"
proof -
  note C = check_date_fieldsD[OF c]
  have "d \<le> days_in_month y m"
  proof (cases "m = 2")
    case True
    with C(6) have "d \<le> 29" by (simp add: days_in_month_def DAYS_IN_MONTH_def split: if_splits)
    with n True have "d \<le> 28" by simp
    then show ?thesis using True by (simp add: days_in_month_def DAYS_IN_MONTH_def)
  next
    case False
    then have "days_in_month y m = days_in_month y0 m" by (simp add: days_in_month_def)
    then show ?thesis using C(6) by simp
  qed
  then show ?thesis
    using C y by (simp add: check_date_fields_def MINYEAR_def MAXYEAR_def)
qed

lemma days_until_same_year:
  assumes v: "validate_date s"
    and c: "check_date_fields (year today) (month_of s) (day_of s)"
    and e: "\<not> (month_of s < month today \<or> (month_of s = month today \<and> day_of s < day today))"
  shows "calculate_days_until_renewal s today =
         Inr (ymd2ord (year today) (month_of s) (day_of s) -
              ymd2ord (year today) (month today) (day today))"
  unfolding calculate_days_until_renewal_cases[OF v] toordinal_def
  using c e by (simp only: if_True if_False not_not not_True_eq_False not_False_eq_True)

lemma days_until_next_year:
  assumes v: "validate_date s"
    and c: "check_date_fields (year today) (month_of s) (day_of s)"
    and e: "month_of s < month today \<or> (month_of s = month today \<and> day_of s < day today)"
    and c': "check_date_fields (year today + 1) (month_of s) (day_of s)"
  shows "calculate_days_until_renewal s today =
         Inr (ymd2ord (year today + 1) (month_of s) (day_of s) -
              ymd2ord (year today) (month today) (day today))"
  unfolding calculate_days_until_renewal_cases[OF v] toordinal_def
  using c e c' by (simp only: if_True if_False not_not not_True_eq_False not_False_eq_True)

lemma days_until_no_candidate:
  assumes v: "validate_date s"
    and c: "\<not> check_date_fields (year today) (month_of s) (day_of s)"
  shows "calculate_days_until_renewal s today =
         Inl (ValueError Error_calculating_days_until_renewal)"
  unfolding calculate_days_until_renewal_cases[OF v]
  using c by (simp only: if_True if_False not_not not_True_eq_False not_False_eq_True)

lemma days_until_no_next_candidate:
  assumes v: "validate_date s"
    and e: "month_of s < month today \<or> (month_of s = month today \<and> day_of s < day today)"
    and c': "\<not> check_date_fields (year today + 1) (month_of s) (day_of s)"
  shows "calculate_days_until_renewal s today =
         Inl (ValueError Error_calculating_days_until_renewal)"
  unfolding calculate_days_until_renewal_cases[OF v]
  using e c' by (simp only: if_True if_False not_not not_True_eq_False not_False_eq_True if_cancel)

lemma days_until_returns_candidate:
  assumes v: "validate_date s"
    and r: "calculate_days_until_renewal s today = Inr n"
  shows "check_date_fields (year today) (month_of s) (day_of s)"
  using r days_until_no_candidate[OF v, of today] by auto

text \<open>
  Claim C1, as amended. For every renewal date string that passes \<^verbatim>\<open>validate_date\<close> and
  every today, when the month and day of the string are a real date of today's year and,
  should that date be earlier than today, also of the next year, which must not exceed
  9999: \<^verbatim>\<open>calculate_days_until_renewal\<close> returns the reference value (month and day of the
  string, candidate in today's year, moved to the next year when strictly earlier than
  today, candidate minus today in whole days); the value is never negative, and it is 0
  exactly when the month and day of the string are today's.
\<close>

theorem days_until_equals_reference:
  assumes v: "validate_date s" and t: "valid_date today"
    and c: "real_calendar_date (year today) (month_of s) (day_of s)"
    and n: "month_of s < month today \<or> (month_of s = month today \<and> day_of s < day today) \<Longrightarrow>
            real_calendar_date (year today + 1) (month_of s) (day_of s) \<and> year today < 9999"
  shows "calculate_days_until_renewal s today = Inr (reference_days s today) \<and>
         0 \<le> reference_days s today \<and>
         (reference_days s today = 0) = (month_of s = month today \<and> day_of s = day today)"
proof -
  from t have t': "check_date_fields (year today) (month today) (day today)"
    by (simp add: valid_date_def)
  note T = check_date_fieldsD[OF t']
  from c T(2) have c': "check_date_fields (year today) (month_of s) (day_of s)"
    by (simp add: check_date_fields_iff)
  note C = check_date_fieldsD[OF c']
  note r = reference_days_ymd2ord[OF t' C(3,4)]
  show ?thesis
  proof (cases "month_of s < month today \<or> (month_of s = month today \<and> day_of s < day today)")
    case True
    from n[OF True] have "check_date_fields (year today + 1) (month_of s) (day_of s)"
      by (simp add: check_date_fields_iff)
    from days_until_next_year[OF v c' True this]
    have "calculate_days_until_renewal s today = Inr (reference_days s today)"
      using True by (simp only: r if_True)
    moreover have "1 \<le> reference_days s today"
      using next_year_days(1)[OF t' c' True] True by (simp only: r if_True)
    moreover have "\<not> (month_of s = month today \<and> day_of s = day today)"
      using True by auto
    ultimately show ?thesis by simp
  next
    case False
    from days_until_same_year[OF v c' False]
    have "calculate_days_until_renewal s today = Inr (reference_days s today)"
      using False by (simp only: r if_False)
    moreover have "0 \<le> reference_days s today"
      using same_year_days(1)[OF t' c' False] False by (simp only: r if_False)
    moreover have "(reference_days s today = 0) = (month_of s = month today \<and> day_of s = day today)"
      using same_year_days(3)[OF t' c' False] False by (simp only: r if_False)
    ultimately show ?thesis by simp
  qed
qed

lemma fields_2024_03_01: "month_of (ustr ''2024-03-01'') = 3" "day_of (ustr ''2024-03-01'') = 1"
  by code_simp+

theorem days_until_equals_reference_witness:
  "validate_date (ustr ''2024-03-01'') \<and> valid_date \<lparr>year = 2023, month = 3, day = 2\<rparr> \<and>
   calculate_days_until_renewal (ustr ''2024-03-01'') \<lparr>year = 2023, month = 3, day = 2\<rparr> = Inr 365 \<and>
   reference_days (ustr ''2024-03-01'') \<lparr>year = 2023, month = 3, day = 2\<rparr> = 365"
proof -
  let ?t = "\<lparr>year = 2023, month = 3, day = 2\<rparr>"
  have v: "validate_date (ustr ''2024-03-01'')" by code_simp
  have t: "valid_date ?t" by code_simp
  have c: "real_calendar_date (year ?t) (month_of (ustr ''2024-03-01'')) (day_of (ustr ''2024-03-01''))"
    unfolding fields_2024_03_01 by (simp add: real_calendar_date_def length_of_month_def)
  have n: "real_calendar_date (year ?t + 1) (month_of (ustr ''2024-03-01'')) (day_of (ustr ''2024-03-01'')) \<and>
           year ?t < 9999"
    unfolding fields_2024_03_01 by (simp add: real_calendar_date_def length_of_month_def)
  have e: "calculate_days_until_renewal (ustr ''2024-03-01'') ?t = Inr 365" by code_simp
  from days_until_equals_reference[OF v t c n]
  have "calculate_days_until_renewal (ustr ''2024-03-01'') ?t = Inr (reference_days (ustr ''2024-03-01'') ?t)"
    by simp
  with e have "reference_days (ustr ''2024-03-01'') ?t = 365" by simp
  with v t e show ?thesis by simp
qed

text \<open>
  The claim as stated, for every today: with today on the last day of year 9999 the
  candidate of the next year is outside the range of \<^verbatim>\<open>date\<close>, and the call raises
  where the reference value is 1.
\<close>

theorem days_until_year_9999_counterexample:
  "validate_date (ustr ''2024-01-01'') \<and> valid_date \<lparr>year = 9999, month = 12, day = 31\<rparr> \<and>
   calculate_days_until_renewal (ustr ''2024-01-01'') \<lparr>year = 9999, month = 12, day = 31\<rparr> =
     Inl (ValueError Error_calculating_days_until_renewal) \<and>
   reference_days (ustr ''2024-01-01'') \<lparr>year = 9999, month = 12, day = 31\<rparr> = 1"
proof -
  let ?t = "\<lparr>year = 9999, month = 12, day = 31\<rparr>"
  have v: "validate_date (ustr ''2024-01-01'')" by code_simp
  have t: "valid_date ?t" by code_simp
  have c: "calculate_days_until_renewal (ustr ''2024-01-01'') ?t =
     Inl (ValueError Error_calculating_days_until_renewal)" by code_simp
  have f: "month_of (ustr ''2024-01-01'') = 1" "day_of (ustr ''2024-01-01'') = 1"
    by code_simp+
  have t': "check_date_fields (year ?t) (month ?t) (day ?t)"
    using t by (simp add: valid_date_def)
  have "reference_days (ustr ''2024-01-01'') ?t = ymd2ord 10000 1 1 - ymd2ord 9999 12 31"
    using reference_days_ymd2ord[OF t', of "ustr ''2024-01-01''"] by (simp add: f)
  also have "\<dots> = 1"
    by (simp add: ymd2ord_def days_before_year_def days_before_month_def DAYS_BEFORE_MONTH_def
        is_leap_def)
  finally show ?thesis using v t c by simp
qed

text \<open>
  Claim C7, as amended. For every renewal date that passes \<^verbatim>\<open>validate_date\<close> and every
  today, every result \<^verbatim>\<open>calculate_days_until_renewal\<close> returns lies in the closed interval
  from 0 to 366; and it does return a result when the date is not a 29 February and
  today's year is before 9999.
\<close>

theorem days_until_in_range:
  assumes v: "validate_date s" and t: "valid_date today"
  shows "(\<forall>n. calculate_days_until_renewal s today = Inr n \<longrightarrow> 0 \<le> n \<and> n \<le> 366) \<and>
         ((month_of s \<noteq> 2 \<or> day_of s \<noteq> 29) \<and> year today < 9999 \<longrightarrow>
            (\<exists>n. calculate_days_until_renewal s today = Inr n))"
proof (intro conjI allI impI)
  from t have t': "check_date_fields (year today) (month today) (day today)"
    by (simp add: valid_date_def)
  note T = check_date_fieldsD[OF t']
  {
    fix n
    assume r: "calculate_days_until_renewal s today = Inr n"
    note c' = days_until_returns_candidate[OF v r]
    have "0 \<le> n \<and> n \<le> 365"
    proof (cases "month_of s < month today \<or> (month_of s = month today \<and> day_of s < day today)")
      case True
      have "check_date_fields (year today + 1) (month_of s) (day_of s)"
        using r days_until_no_next_candidate[OF v True] by auto
      from days_until_next_year[OF v c' True this] r
      have "n = ymd2ord (year today + 1) (month_of s) (day_of s) -
                ymd2ord (year today) (month today) (day today)"
        by simp
      then show ?thesis
        using next_year_days[OF t' c' True] by simp
    next
      case False
      from days_until_same_year[OF v c' False] r
      have "n = ymd2ord (year today) (month_of s) (day_of s) -
                ymd2ord (year today) (month today) (day today)"
        by simp
      then show ?thesis
        using same_year_days(1,2)[OF t' c' False] by simp
    qed
    then show "0 \<le> n" "n \<le> 366" by simp_all
  }
  assume g: "(month_of s \<noteq> 2 \<or> day_of s \<noteq> 29) \<and> year today < 9999"
  note V = validate_date_strptime(2)[OF v]
  have c1: "check_date_fields (year today) (month_of s) (day_of s)"
    using g T by (intro check_date_fields_other_year[OF V]) auto
  have c2: "check_date_fields (year today + 1) (month_of s) (day_of s)"
    using g T by (intro check_date_fields_other_year[OF V]) auto
  show "\<exists>n. calculate_days_until_renewal s today = Inr n"
    using days_until_next_year[OF v c1 _ c2] days_until_same_year[OF v c1] by blast
qed

theorem days_until_in_range_witness:
  "validate_date (ustr ''2024-12-25'') \<and> valid_date \<lparr>year = 2024, month = 12, day = 26\<rparr> \<and>
   calculate_days_until_renewal (ustr ''2024-12-25'') \<lparr>year = 2024, month = 12, day = 26\<rparr> = Inr 364 \<and>
   (0::int) \<le> 364 \<and> (364::int) \<le> 366"
proof -
  let ?t = "\<lparr>year = 2024, month = 12, day = 26\<rparr>"
  have v: "validate_date (ustr ''2024-12-25'')" by code_simp
  have t: "valid_date ?t" by code_simp
  have e: "calculate_days_until_renewal (ustr ''2024-12-25'') ?t = Inr 364" by code_simp
  from days_until_in_range[OF v t] e have "(0::int) \<le> 364 \<and> (364::int) \<le> 366"
    by blast
  with v t e show ?thesis by simp
qed

text \<open>
  The claim as stated, for every today: on 16 June 9999 a renewal on 15 June has no
  result at all.
\<close>

theorem days_until_no_result_counterexample:
  "validate_date (ustr ''2000-06-15'') \<and> valid_date \<lparr>year = 9999, month = 6, day = 16\<rparr> \<and>
   calculate_days_until_renewal (ustr ''2000-06-15'') \<lparr>year = 9999, month = 6, day = 16\<rparr> =
     Inl (ValueError Error_calculating_days_until_renewal)"
  by code_simp

text \<open>
  Claim C2 asks for a result on every valid renewal date, a 29 February included. What
  the source does instead: for a renewal date on 29 February, when today's year is not a
  leap year, or is one but today is past February, \<^verbatim>\<open>date.replace\<close> raises and
  \<^verbatim>\<open>calculate_days_until_renewal\<close> raises \<^verbatim>\<open>ValueError\<close>; there is no fallback to 28
  February or 1 March.
\<close>

theorem feb_29_raises:
  assumes v: "validate_date s" and f: "month_of s = 2" "day_of s = 29"
    and t: "valid_date today"
    and y: "\<not> leap_year (year today) \<or> 2 < month today"
  shows "calculate_days_until_renewal s today =
         Inl (ValueError Error_calculating_days_until_renewal)"
proof (cases "leap_year (year today)")
  case False
  then have "\<not> check_date_fields (year today) (month_of s) (day_of s)"
    by (simp add: f check_date_fields_def days_in_month_def DAYS_IN_MONTH_def is_leap_iff)
  then show ?thesis
    by (rule days_until_no_candidate[OF v])
next
  case True
  with y have m: "2 < month today" by simp
  from True have "\<not> leap_year (year today + 1)"
    unfolding leap_year_def by presburger
  then have "\<not> check_date_fields (year today + 1) (month_of s) (day_of s)"
    by (simp add: f check_date_fields_def days_in_month_def DAYS_IN_MONTH_def is_leap_iff)
  moreover have "month_of s < month today \<or> (month_of s = month today \<and> day_of s < day today)"
    using m f by simp
  ultimately show ?thesis
    by (intro days_until_no_next_candidate[OF v])
qed

theorem feb_29_raises_witness:
  "validate_date (ustr ''2024-02-29'') \<and> valid_date \<lparr>year = 2025, month = 1, day = 1\<rparr> \<and>
   calculate_days_until_renewal (ustr ''2024-02-29'') \<lparr>year = 2025, month = 1, day = 1\<rparr> =
     Inl (ValueError Error_calculating_days_until_renewal)"
proof -
  let ?t = "\<lparr>year = 2025, month = 1, day = 1\<rparr>"
  have v: "validate_date (ustr ''2024-02-29'')" by code_simp
  have t: "valid_date ?t" by code_simp
  have f: "month_of (ustr ''2024-02-29'') = 2" "day_of (ustr ''2024-02-29'') = 29"
    by code_simp+
  have y: "\<not> leap_year (year ?t) \<or> 2 < month ?t"
    by (simp add: leap_year_def)
  from feb_29_raises[OF v f t y] v t show ?thesis by simp
qed

section \<open>The subscription store\<close>

subsection \<open>Reading rows back\<close>

lemma load_row_cases:
  "load_row r =
     (if row_cost r < 0 then Inl (ValueError Cost_cannot_be_negative)
      else if \<not> validate_date (row_renewal_date r) then Inl (ValueError Invalid_renewal_date_format)
      else Inr (as_subscription r))"
  by (simp add: load_row_def Subscription_def as_subscription_def)

lemma load_row_ok: "row_invariant r \<Longrightarrow> load_row r = Inr (as_subscription r)"
  by (simp add: load_row_cases row_invariant_def)

lemma load_row_bad: "\<not> row_invariant r \<Longrightarrow> isl (load_row r)"
  by (auto simp: load_row_cases row_invariant_def)

lemma load_row_Inr: "load_row r = Inr s \<Longrightarrow> row_invariant r \<and> s = as_subscription r"
  by (auto simp: load_row_cases row_invariant_def split: if_splits)

lemma load_rows_ok: "list_all row_invariant rs \<Longrightarrow> load_rows rs = Inr (map as_subscription rs)"
  by (induction rs) (simp_all add: load_row_ok)

lemma load_rows_bad: "\<not> list_all row_invariant rs \<Longrightarrow> isl (load_rows rs)"
proof (induction rs)
  case Nil
  then show ?case by simp
next
  case (Cons r rs)
  show ?case
  proof (cases "row_invariant r")
    case True
    with Cons show ?thesis
      by (auto simp: load_row_ok split: sum.splits)
  next
    case False
    from load_row_bad[OF this] show ?thesis
      by (auto split: sum.splits)
  qed
qed

lemma load_rows_Inr:
  assumes "load_rows rs = Inr ss"
  shows "list_all row_invariant rs" "ss = map as_subscription rs"
proof -
  show inv: "list_all row_invariant rs"
    using assms load_rows_bad[of rs] by auto
  from load_rows_ok[OF inv] assms show "ss = map as_subscription rs" by simp
qed

lemma as_subscription_invariant:
  "subscription_invariant (as_subscription r) = row_invariant r"
  by (simp add: subscription_invariant_def row_invariant_def as_subscription_def)


lemma as_subscription_fields:
  "name (as_subscription r) = row_name r" "category (as_subscription r) = row_category r"
  "cost (as_subscription r) = Num (row_cost r)" "renewal_date (as_subscription r) = row_renewal_date r"
  "payment_method (as_subscription r) = row_payment_method r"
  "sub_id (as_subscription r) = Some (row_id r)"
  by (simp_all add: as_subscription_def)

lemma list_all_order_by_name: "list_all P (order_by_name rs) = list_all P rs"
  by (simp add: order_by_name_def list_all_iff)

lemma get_all_subscriptions_ok:
  "list_all row_invariant (rows db) \<Longrightarrow>
   get_all_subscriptions db = Inr (map as_subscription (order_by_name (rows db)))"
  by (simp add: get_all_subscriptions_def load_rows_ok list_all_order_by_name)


lemma get_all_subscriptions_Inr:
  assumes "get_all_subscriptions db = Inr ss"
  shows "list_all row_invariant (rows db)" "ss = map as_subscription (order_by_name (rows db))"
  using load_rows_Inr[of "order_by_name (rows db)" ss] assms
  by (simp_all add: get_all_subscriptions_def list_all_order_by_name)




lemma load_rows_invariant:
  assumes "load_rows rs = Inr ss"
  shows "list_all subscription_invariant ss"
  using load_rows_Inr[OF assms]
  by (simp add: list_all_iff as_subscription_invariant)

lemma get_subscription_by_id_Some:
  assumes "get_subscription_by_id db i = Inr (Some s)"
  shows "\<exists>r \<in> set (rows db). row_id r = i \<and> row_invariant r \<and> s = as_subscription r"
proof (cases "find (\<lambda>r. row_id r = i) (rows db)")
  case None
  with assms show ?thesis
    by (simp add: get_subscription_by_id_def bind_int_def split: if_splits)
next
  case (Some r)
  then have "r \<in> set (rows db)" "row_id r = i"
    by (auto simp: find_Some_iff)
  moreover from assms Some have "load_row r = Inr s"
    by (simp add: get_subscription_by_id_def bind_int_def split: sum.splits if_splits)
  ultimately show ?thesis
    using load_row_Inr by blast
qed

lemma upcoming_loop_subset:
  "upcoming_loop ss days today = Inr up \<Longrightarrow> fst ` set up \<subseteq> set ss"
proof (induction ss arbitrary: up)
  case Nil
  then show ?case by simp
next
  case (Cons s ss)
  then show ?case
    by (fastforce split: sum.splits if_splits)
qed

lemma get_upcoming_renewals_subset:
  assumes "get_upcoming_renewals db days today = Inr up"
  obtains ss where "get_all_subscriptions db = Inr ss" "fst ` set up \<subseteq> set ss"
proof -
  from assms obtain ss u where a: "get_all_subscriptions db = Inr ss"
    and u: "upcoming_loop ss days today = Inr u" and e: "up = sort_key snd u"
    by (auto simp: get_upcoming_renewals_def split: sum.splits)
  from upcoming_loop_subset[OF u] e have "fst ` set up \<subseteq> set ss" by simp
  with a show thesis by (rule that)
qed

lemma bind_text_ustr: "bind_text (ustr s) = None"
proof -
  have "\<not> is_surrogate (ord c)" for c
  proof -
    have "(of_char c :: int) mod 256 < 256" by (rule pos_mod_bound) simp
    then have "(of_char c :: int) < 256" by (simp only: of_char_mod_256)
    then show ?thesis by (simp add: is_surrogate_def ord_def)
  qed
  then show ?thesis
    by (simp add: bind_text_def encodable_def ustr_def list_ex_iff)
qed

lemma search_subscriptions_cases:
  "search_subscriptions db q =
     (if SQLITE_MAX_LIKE_PATTERN_LENGTH < utf8_length (ustr (CHR ''%'' # py_lower q @ [CHR ''%'']))
      then Inr []
      else load_rows (order_by_name
             (filter (\<lambda>r. like (CHR ''%'' # py_lower q @ [CHR ''%'']) (sqlite_lower (row_name r)) \<or>
                          like (CHR ''%'' # py_lower q @ [CHR ''%''])
                            (sqlite_lower (row_category r)))
                (rows db))))"
  unfolding search_subscriptions_def Let_def bind_text_ustr bind_parameters.simps option.case
  by (rule refl)

lemma search_subscriptions_Inr:
  assumes "search_subscriptions db q = Inr ss"
  obtains "ss = []" | rs where "load_rows rs = Inr ss"
proof (cases "SQLITE_MAX_LIKE_PATTERN_LENGTH <
    utf8_length (ustr (CHR ''%'' # py_lower q @ [CHR ''%'']))")
  case True
  with assms have "ss = []" by (simp add: search_subscriptions_cases)
  then show thesis by (rule that(1))
next
  case False
  from assms have "load_rows (order_by_name
             (filter (\<lambda>r. like (CHR ''%'' # py_lower q @ [CHR ''%'']) (sqlite_lower (row_name r)) \<or>
                          like (CHR ''%'' # py_lower q @ [CHR ''%''])
                            (sqlite_lower (row_category r)))
                (rows db))) = Inr ss"
    unfolding search_subscriptions_cases using False by simp
  then show thesis by (rule that(2))
qed

lemma get_subscriptions_by_category_Inr:
  assumes "get_subscriptions_by_category db cat = Inr ss"
  obtains rs where "load_rows rs = Inr ss"
  using assms by (auto simp: get_subscriptions_by_category_def bind_text_ustr)

text \<open>
  Claim C10, as amended. A \<^verbatim>\<open>Subscription\<close> that the constructor returns has a renewal
  date that passes \<^verbatim>\<open>validate_date\<close> and a cost that is not negative: a cost of at least
  0, or a NaN, on which the test \<^verbatim>\<open>cost < 0\<close> is false. The constructor fails on a
  negative cost and on an invalid date. Every query builds its records with the
  constructor from a row, and a row holds no NaN, so whatever
  \<^verbatim>\<open>get_subscription_by_id\<close>, \<^verbatim>\<open>get_all_subscriptions\<close>, \<^verbatim>\<open>search_subscriptions\<close>,
  \<^verbatim>\<open>get_subscriptions_by_category\<close> or \<^verbatim>\<open>get_upcoming_renewals\<close> returns from the table
  has a cost of at least 0 and a valid renewal date.
\<close>

theorem returned_records_satisfy_invariant:
  "(Subscription i n c k r p = Inr s \<longrightarrow>
      \<not> float_lt (cost s) (Num 0) \<and> validate_date (renewal_date s) \<and>
      (subscription_invariant s \<or> cost s = NaN)) \<and>
   (float_lt k' (Num 0) \<or> \<not> validate_date r' \<longrightarrow> isl (Subscription i' n' c' k' r' p')) \<and>
   (get_subscription_by_id db1 j = Inr (Some s1) \<longrightarrow> subscription_invariant s1) \<and>
   (get_all_subscriptions db2 = Inr ss2 \<longrightarrow> list_all subscription_invariant ss2) \<and>
   (search_subscriptions db3 q = Inr ss3 \<longrightarrow> list_all subscription_invariant ss3) \<and>
   (get_subscriptions_by_category db4 cat = Inr ss4 \<longrightarrow> list_all subscription_invariant ss4) \<and>
   (get_upcoming_renewals db5 days today = Inr up \<longrightarrow>
      list_all (\<lambda>(s, d). subscription_invariant s) up)"
proof (intro conjI impI)
  assume a: "Subscription i n c k r p = Inr s"
  then show l: "\<not> float_lt (cost s) (Num 0)" and v: "validate_date (renewal_date s)"
    by (auto simp: Subscription_def split: if_splits)
  show "subscription_invariant s \<or> cost s = NaN"
  proof (cases "cost s")
    case (Num x)
    with l v show ?thesis by (simp add: subscription_invariant_def)
  next
    case NaN
    then show ?thesis by simp
  qed
next
  assume "float_lt k' (Num 0) \<or> \<not> validate_date r'"
  then show "isl (Subscription i' n' c' k' r' p')"
    by (auto simp: Subscription_def)
next
  assume "get_subscription_by_id db1 j = Inr (Some s1)"
  from get_subscription_by_id_Some[OF this] show "subscription_invariant s1"
    by (auto simp: as_subscription_invariant)
next
  assume "get_all_subscriptions db2 = Inr ss2"
  then show "list_all subscription_invariant ss2"
    unfolding get_all_subscriptions_def by (rule load_rows_invariant)
next
  assume "search_subscriptions db3 q = Inr ss3"
  then show "list_all subscription_invariant ss3"
    by (rule search_subscriptions_Inr) (simp, rule load_rows_invariant)
next
  assume "get_subscriptions_by_category db4 cat = Inr ss4"
  then show "list_all subscription_invariant ss4"
    by (rule get_subscriptions_by_category_Inr) (rule load_rows_invariant)
next
  assume "get_upcoming_renewals db5 days today = Inr up"
  then obtain ss where a: "get_all_subscriptions db5 = Inr ss" and s: "fst ` set up \<subseteq> set ss"
    by (rule get_upcoming_renewals_subset)
  from a have "list_all subscription_invariant ss"
    unfolding get_all_subscriptions_def by (rule load_rows_invariant)
  with s show "list_all (\<lambda>(s, d). subscription_invariant s) up"
    by (fastforce simp: list_all_iff)
qed


subsection \<open>Adding and updating\<close>

















subsection \<open>Searching\<close>











lemma ord_of_nat: "ord c = int (of_char c)"
  unfolding ord_def by (rule of_nat_of_char[symmetric])

lemma utf8_size_py_lower_char: "utf8_size (ord (py_lower_char c)) = utf8_size (ord c)"
proof (cases "(65 \<le> (of_char c :: nat) \<and> (of_char c :: nat) \<le> 90) \<or>
    (192 \<le> (of_char c :: nat) \<and> (of_char c :: nat) \<le> 214) \<or>
    (216 \<le> (of_char c :: nat) \<and> (of_char c :: nat) \<le> 222)")
  case True
  then have l: "py_lower_char c = char_of (of_char c + 32 :: nat)"
    by (simp add: py_lower_char_def Let_def)
  from True have "(of_char (char_of (of_char c + 32 :: nat)) :: nat) = of_char c + 32"
    by (auto simp: of_char_of)
  then have "ord (py_lower_char c) = int (of_char c) + 32"
    unfolding l ord_of_nat by simp
  with True show ?thesis
    unfolding ord_of_nat[of c] utf8_size_def by auto
next
  case False
  then have "py_lower_char c = c"
    unfolding py_lower_char_def Let_def by (rule if_not_P)
  then show ?thesis by simp
qed

lemma utf8_length_py_lower: "utf8_length (ustr (py_lower q)) = utf8_length (ustr q)"
  by (induction q) (simp_all add: utf8_length_def ustr_def py_lower_def utf8_size_py_lower_char)

lemma utf8_length_pattern:
  "utf8_length (ustr (CHR ''%'' # py_lower q @ [CHR ''%''])) = utf8_length (ustr q) + 2"
proof -
  have "utf8_size (ord CHR ''%'') = 1"
    by (simp add: utf8_size_def ord_def)
  then have "utf8_length (ustr (CHR ''%'' # py_lower q @ [CHR ''%''])) =
             utf8_length (ustr (py_lower q)) + 2"
    by (simp add: utf8_length_def ustr_def)
  then show ?thesis by (simp only: utf8_length_py_lower)
qed

lemma search_subscriptions_limit:
  "search_subscriptions db q =
     (if 49998 < utf8_length (ustr q) then Inr []
      else load_rows (order_by_name
             (filter (\<lambda>r. like (CHR ''%'' # py_lower q @ [CHR ''%'']) (sqlite_lower (row_name r)) \<or>
                          like (CHR ''%'' # py_lower q @ [CHR ''%''])
                            (sqlite_lower (row_category r)))
                (rows db))))"
  unfolding search_subscriptions_cases utf8_length_pattern SQLITE_MAX_LIKE_PATTERN_LENGTH_def
  by simp


subsection \<open>Upcoming renewals\<close>

lemma upcoming_loop_ok:
  assumes "\<forall>s \<in> set ss. calculate_days_until_renewal (renewal_date s) today = Inr (days_of s)"
  shows "upcoming_loop ss days today =
         Inr (filter (\<lambda>(s, n). 0 \<le> n \<and> n \<le> days) (map (\<lambda>s. (s, days_of s)) ss))"
  using assms by (induction ss) simp_all

lemma get_all_subscriptions_sorted:
  assumes "get_all_subscriptions db = Inr subs"
  shows "sorted (map name subs)"
proof -
  have "map name subs = map row_name (sort_key row_name (rows db))"
    unfolding get_all_subscriptions_Inr(2)[OF assms] order_by_name_def
    by (simp add: comp_def as_subscription_fields)
  then show ?thesis by (simp only: sorted_sort_key)
qed

lemma insort_key_lex:
  fixes f :: "'a \<Rightarrow> int" and g :: "'a \<Rightarrow> string"
  assumes "sorted_wrt (\<lambda>a b. f a < f b \<or> (f a = f b \<and> g a \<le> g b)) ys"
    and "\<forall>y \<in> set ys. g x \<le> g y"
  shows "sorted_wrt (\<lambda>a b. f a < f b \<or> (f a = f b \<and> g a \<le> g b)) (insort_key f x ys)"
  using assms
proof (induction ys)
  case Nil
  show ?case by simp
next
  case (Cons y ys)
  show ?case
  proof (cases "f x \<le> f y")
    case True
    have "f x < f z \<or> (f x = f z \<and> g x \<le> g z)" if "z \<in> set (y # ys)" for z
    proof -
      have "f y \<le> f z" using that Cons.prems(1) by auto
      with True have "f x \<le> f z" by simp
      moreover have "g x \<le> g z" using that Cons.prems(2) by auto
      ultimately show ?thesis by auto
    qed
    with True Cons.prems(1) show ?thesis by simp
  next
    case False
    have "sorted_wrt (\<lambda>a b. f a < f b \<or> (f a = f b \<and> g a \<le> g b)) (insort_key f x ys)"
      using Cons by simp
    moreover have "f y < f z \<or> (f y = f z \<and> g y \<le> g z)" if "z \<in> set (insort_key f x ys)" for z
      using that False Cons.prems(1) by (auto simp: set_insort_key)
    ultimately show ?thesis using False by simp
  qed
qed

lemma sort_key_lex:
  fixes f :: "'a \<Rightarrow> int" and g :: "'a \<Rightarrow> string"
  assumes "sorted (map g xs)"
  shows "sorted_wrt (\<lambda>a b. f a < f b \<or> (f a = f b \<and> g a \<le> g b)) (sort_key f xs)"
  using assms
proof (induction xs)
  case Nil
  show ?case by simp
next
  case (Cons x xs)
  then have "\<forall>y \<in> set (sort_key f xs). g x \<le> g y" by simp
  moreover from Cons have
    "sorted_wrt (\<lambda>a b. f a < f b \<or> (f a = f b \<and> g a \<le> g b)) (sort_key f xs)" by simp
  ultimately show ?case
    by (simp add: insort_key_lex)
qed

text \<open>
  Claim C6, as amended. For every window \<open>days\<close> and every today, when
  \<^verbatim>\<open>get_all_subscriptions\<close> returns the records and \<^verbatim>\<open>calculate_days_until_renewal\<close>
  returns a day count for the renewal date of each of them, \<^verbatim>\<open>get_upcoming_renewals\<close>
  returns exactly the pairs of a record and its day count with the count between 0 and
  \<open>days\<close>, sorted ascending by the count, pairs of equal count by record name ascending.
\<close>

theorem upcoming_renewals_filtered_and_sorted:
  "get_all_subscriptions db = Inr subs \<and>
   (\<forall>s \<in> set subs. calculate_days_until_renewal (renewal_date s) today = Inr (days_of s)) \<longrightarrow>
   (\<exists>upcoming.
      get_upcoming_renewals db days today = Inr upcoming \<and>
      mset upcoming =
        mset (filter (\<lambda>(s, n). 0 \<le> n \<and> n \<le> days) (map (\<lambda>s. (s, days_of s)) subs)) \<and>
      sorted_wrt (\<lambda>(s1, n1) (s2, n2). n1 < n2 \<or> (n1 = n2 \<and> name s1 \<le> name s2)) upcoming)"
proof (intro impI, elim conjE)
  assume a: "get_all_subscriptions db = Inr subs"
    and c: "\<forall>s \<in> set subs. calculate_days_until_renewal (renewal_date s) today = Inr (days_of s)"
  let ?u = "filter (\<lambda>(s, n). 0 \<le> n \<and> n \<le> days) (map (\<lambda>s. (s, days_of s)) subs)"
  have r: "get_upcoming_renewals db days today = Inr (sort_key snd ?u)"
    by (simp add: get_upcoming_renewals_def a upcoming_loop_ok[OF c])
  have "sorted (map (name \<circ> fst) (map (\<lambda>s. (s, days_of s)) subs))"
    using get_all_subscriptions_sorted[OF a] by (simp add: comp_def)
  then have "sorted (map (name \<circ> fst) ?u)"
    by (rule sorted_filter)
  from sort_key_lex[OF this, of snd]
  have "sorted_wrt (\<lambda>a b. snd a < snd b \<or> (snd a = snd b \<and> name (fst a) \<le> name (fst b)))
          (sort_key snd ?u)"
    by simp
  then have "sorted_wrt (\<lambda>(s1, n1) (s2, n2). n1 < n2 \<or> (n1 = n2 \<and> name s1 \<le> name s2))
          (sort_key snd ?u)"
    by (rule sorted_wrt_mono_rel[rotated]) auto
  with r show "\<exists>upcoming.
      get_upcoming_renewals db days today = Inr upcoming \<and>
      mset upcoming = mset ?u \<and>
      sorted_wrt (\<lambda>(s1, n1) (s2, n2). n1 < n2 \<or> (n1 = n2 \<and> name s1 \<le> name s2)) upcoming"
    by simp
qed

subsection \<open>The example store\<close>

lemma example_dates_valid:
  "validate_date (ustr ''2024-01-10'')" "validate_date (ustr ''2024-03-15'')"
  "validate_date (ustr ''2024-02-01'')" "validate_date (ustr ''2023-01-10'')"
  by code_simp+



lemma example_db_sorted:
  "order_by_name (rows example_db) =
     [as_row 4 audible, as_row 2 dropbox, as_row 3 gym, as_row 1 netflix]"
  by (simp add: order_by_name_def example_db_def as_row_def netflix_def dropbox_def gym_def
      audible_def)

lemma example_db_invariant: "list_all row_invariant (rows example_db)"
  by (simp add: example_db_def row_invariant_def as_row_def netflix_def dropbox_def gym_def
      audible_def example_dates_valid)

lemma example_db_all:
  "get_all_subscriptions example_db =
     Inr (map as_subscription [as_row 4 audible, as_row 2 dropbox, as_row 3 gym, as_row 1 netflix])"
  by (simp only: get_all_subscriptions_ok[OF example_db_invariant] example_db_sorted)

lemma example_days:
  "calculate_days_until_renewal (ustr ''2024-01-10'') \<lparr>year = 2024, month = 1, day = 5\<rparr> = Inr 5"
  "calculate_days_until_renewal (ustr ''2024-03-15'') \<lparr>year = 2024, month = 1, day = 5\<rparr> = Inr 70"
  "calculate_days_until_renewal (ustr ''2024-02-01'') \<lparr>year = 2024, month = 1, day = 5\<rparr> = Inr 27"
  "calculate_days_until_renewal (ustr ''2023-01-10'') \<lparr>year = 2024, month = 1, day = 5\<rparr> = Inr 5"
  by code_simp+

lemma netflix_constructed:
  "Subscription None ''Netflix'' ''Streaming'' (Num 15.99) (ustr ''2024-01-10'') ''Credit Card'' =
     Inr netflix"
  by (simp add: Subscription_def netflix_def example_dates_valid)


theorem returned_records_satisfy_invariant_witness:
  "Subscription None ''Netflix'' ''Streaming'' (Num 15.99) (ustr ''2024-01-10'') ''Credit Card'' =
     Inr netflix \<and>
   \<not> float_lt (cost netflix) (Num 0) \<and> validate_date (renewal_date netflix) \<and>
   subscription_invariant netflix \<and>
   isl (Subscription None ''Netflix'' ''Streaming'' (Num (- 1)) (ustr ''2024-01-10'')
          ''Credit Card'') \<and>
   get_all_subscriptions example_db =
     Inr (map as_subscription [as_row 4 audible, as_row 2 dropbox, as_row 3 gym, as_row 1 netflix]) \<and>
   list_all subscription_invariant
     (map as_subscription [as_row 4 audible, as_row 2 dropbox, as_row 3 gym, as_row 1 netflix])"
proof -
  note c = netflix_constructed
  have n: "float_lt (Num (- 1)) (Num 0) \<or> \<not> validate_date (ustr ''2024-01-10'')" by simp
  have k: "cost netflix \<noteq> NaN" by (simp add: netflix_def)
  note a = returned_records_satisfy_invariant[THEN conjunct1, THEN mp, OF c]
  note b = returned_records_satisfy_invariant[THEN conjunct2, THEN conjunct1, THEN mp, OF n,
      of None "''Netflix''" "''Streaming''" "''Credit Card''"]
  note d = returned_records_satisfy_invariant[THEN conjunct2, THEN conjunct2, THEN conjunct2,
      THEN conjunct1, THEN mp, OF example_db_all]
  from a k have "subscription_invariant netflix" by blast
  with a b c d example_db_all show ?thesis by blast
qed

text \<open>
  The claim as stated, for every value that can be constructed: the constructor
  returns a record whose cost is a NaN, and a NaN is not at least 0.
\<close>

theorem subscription_nan_cost_counterexample:
  "Subscription None ''Netflix'' ''Streaming'' NaN (ustr ''2024-01-10'') ''Credit Card'' =
     Inr (netflix\<lparr>cost := NaN\<rparr>) \<and>
   \<not> float_le (Num 0) (cost (netflix\<lparr>cost := NaN\<rparr>)) \<and>
   \<not> subscription_invariant (netflix\<lparr>cost := NaN\<rparr>)"
  by (simp add: Subscription_def netflix_def example_dates_valid subscription_invariant_def)



theorem upcoming_renewals_filtered_and_sorted_witness:
  "get_upcoming_renewals example_db 30 \<lparr>year = 2024, month = 1, day = 5\<rparr> =
     Inr [(as_subscription (as_row 4 audible), 5), (as_subscription (as_row 1 netflix), 5),
          (as_subscription (as_row 3 gym), 27)] \<and>
   sorted_wrt (\<lambda>(s1, n1) (s2, n2). n1 < n2 \<or> (n1 = n2 \<and> name s1 \<le> name s2))
     [(as_subscription (as_row 4 audible), 5 :: int), (as_subscription (as_row 1 netflix), 5),
      (as_subscription (as_row 3 gym), 27)]"
proof -
  let ?t = "\<lparr>year = 2024, month = 1, day = 5\<rparr>"
  let ?d = "\<lambda>s. case calculate_days_until_renewal (renewal_date s) ?t of Inr n \<Rightarrow> n | Inl e \<Rightarrow> 0"
  let ?subs = "map as_subscription [as_row 4 audible, as_row 2 dropbox, as_row 3 gym, as_row 1 netflix]"
  have c: "\<forall>s \<in> set ?subs. calculate_days_until_renewal (renewal_date s) ?t = Inr (?d s)"
    by (simp add: as_subscription_def as_row_def netflix_def dropbox_def gym_def audible_def
        example_days)
  have e: "get_upcoming_renewals example_db 30 ?t =
     Inr [(as_subscription (as_row 4 audible), 5), (as_subscription (as_row 1 netflix), 5),
          (as_subscription (as_row 3 gym), 27)]"
    by (simp add: get_upcoming_renewals_def example_db_all example_days
        as_subscription_def as_row_def netflix_def dropbox_def gym_def audible_def)
  from upcoming_renewals_filtered_and_sorted[THEN mp, OF conjI, OF example_db_all c, of 30]
  obtain up where "get_upcoming_renewals example_db 30 ?t = Inr up"
    and "sorted_wrt (\<lambda>(s1, n1) (s2, n2). n1 < n2 \<or> (n1 = n2 \<and> name s1 \<le> name s2)) up"
    by blast
  with e show ?thesis by simp
qed

text \<open>
  The claim as stated, for every today: on the last day of year 9999 the candidate of
  the next year does not exist and the whole query raises.
\<close>

theorem upcoming_renewals_year_9999_counterexample:
  "get_all_subscriptions example_db =
     Inr (map as_subscription [as_row 4 audible, as_row 2 dropbox, as_row 3 gym, as_row 1 netflix]) \<and>
   valid_date \<lparr>year = 9999, month = 12, day = 31\<rparr> \<and>
   get_upcoming_renewals example_db 30 \<lparr>year = 9999, month = 12, day = 31\<rparr> =
     Inl (ValueError Error_calculating_days_until_renewal)"
proof -
  have "calculate_days_until_renewal (ustr ''2023-01-10'') \<lparr>year = 9999, month = 12, day = 31\<rparr> =
        Inl (ValueError Error_calculating_days_until_renewal)"
    by code_simp
  moreover have "valid_date \<lparr>year = 9999, month = 12, day = 31\<rparr>" by code_simp
  ultimately show ?thesis
    by (simp add: get_upcoming_renewals_def example_db_all as_subscription_def as_row_def
        audible_def)
qed





text \<open>
  Queries that are not literal. \<^verbatim>\<open>_\<close> in the query is a wildcard of \<^verbatim>\<open>LIKE\<close>: the query
  \<^verbatim>\<open>_y\<close> finds the record named \<^verbatim>\<open>Gym\<close>, which does not contain it. A capital letter
  outside \<^verbatim>\<open>A\<close>..\<^verbatim>\<open>Z\<close> is lowered by \<^verbatim>\<open>str.lower\<close> and left alone by SQLite: the query
  of the one character 201 (capital E with an acute accent) does not find a text that is
  this very character.
\<close>

lemma search_wildcard_query:
  "search_subscriptions example_db ''_y'' = Inr [as_subscription (as_row 3 gym)]"
  "\<not> contains_ignoring_ascii_case ''Gym'' ''_y''"
  "\<not> contains_ignoring_ascii_case ''Fitness'' ''_y''"
proof -
  have l: "py_lower ''_y'' = ''_y''" by code_simp
  have n: "\<not> 49998 < utf8_length (ustr ''_y'')" by code_simp
  have m: "like ''%_y%'' (sqlite_lower ''Netflix'') = False"
    "like ''%_y%'' (sqlite_lower ''Streaming'') = False"
    "like ''%_y%'' (sqlite_lower ''Dropbox Plus'') = False"
    "like ''%_y%'' (sqlite_lower ''Cloud Storage'') = False"
    "like ''%_y%'' (sqlite_lower ''Gym'') = True"
    "like ''%_y%'' (sqlite_lower ''Audible'') = False"
    "like ''%_y%'' (sqlite_lower ''Books'') = False"
    by code_simp+
  show "search_subscriptions example_db ''_y'' = Inr [as_subscription (as_row 3 gym)]"
    unfolding search_subscriptions_limit
    by (simp add: n l m example_db_def as_row_def netflix_def dropbox_def
        gym_def audible_def order_by_name_def load_row_cases as_subscription_def
        example_dates_valid)
  show "\<not> contains_ignoring_ascii_case ''Gym'' ''_y''"
    "\<not> contains_ignoring_ascii_case ''Fitness'' ''_y''"
    by code_simp+
qed

lemma search_latin_capital_query:
  "\<not> like (CHR ''%'' # py_lower [char_of (201 :: nat)] @ [CHR ''%''])
       (sqlite_lower [char_of (201 :: nat)])"
  "contains_ignoring_ascii_case [char_of (201 :: nat)] [char_of (201 :: nat)]"
  by code_simp+

text \<open>
  The case of a letter outside \<^verbatim>\<open>A\<close>..\<^verbatim>\<open>Z\<close> is not ignored. The query \<^verbatim>\<open>ecole\<close> with an
  acute accent on its first letter (character 233) is a literal query; a name that
  differs from it only in starting with the capital of that letter (character 201) does
  not contain it up to the case of \<^verbatim>\<open>A\<close>..\<^verbatim>\<open>Z\<close>, and the pattern of the query does not
  match that name, while it matches the name written as the query is.
\<close>

lemma search_accented_letter_query:
  "literal_query (char_of (233 :: nat) # ''cole'')"
  "\<not> contains_ignoring_ascii_case (char_of (201 :: nat) # ''cole'') (char_of (233 :: nat) # ''cole'')"
  "\<not> like (CHR ''%'' # py_lower (char_of (233 :: nat) # ''cole'') @ [CHR ''%''])
       (sqlite_lower (char_of (201 :: nat) # ''cole''))"
  "like (CHR ''%'' # py_lower (char_of (233 :: nat) # ''cole'') @ [CHR ''%''])
       (sqlite_lower (char_of (233 :: nat) # ''cole''))"
  by code_simp+





end
